theory Spec2Isabelle
  imports Complex_Main "HOL-Library.Sublist" "HOL-Library.AList"
begin

section \<open>JavaScript values\<close>

text \<open>
  The CRM client (class \<open>CRMClient\<close>) handles the values that \<open>JSON.parse\<close> produces,
  plus \<open>undefined\<close> and \<open>Date\<close> objects. An object is the list of its own enumerable
  properties in the order of \<open>Object.keys\<close>; numbers are the reals that finite doubles
  denote (the client never computes with them, it only tests them for truthiness).
  Strings are lists of \<open>char\<close>: code units below 256.
\<close>

datatype jsval =
    JUndefined
  | JNull
  | JBool bool
  | JNum real
  | JStr string
  | JDate "real option"
  | JArr "jsval list"
  | JObj "(string \<times> jsval) list"

text \<open>
  Thrown values. \<open>Error_msg m\<close> is \<open>new Error(m)\<close> for a message built by a template
  literal; \<open>Error_val v\<close> is \<open>new Error(v)\<close> for a value \<open>v\<close> handed to the constructor
  as it is (the constructor stringifies it).
\<close>

datatype error = TypeError | SyntaxError | Error_msg string | Error_val jsval

fun truthy :: "jsval \<Rightarrow> bool" where
  "truthy JUndefined = False"
| "truthy JNull = False"
| "truthy (JBool b) = b"
| "truthy (JNum x) = (x \<noteq> 0)"
| "truthy (JStr s) = (s \<noteq> [])"
| "truthy (JDate t) = True"
| "truthy (JArr xs) = True"
| "truthy (JObj kvs) = True"

text \<open>
  Reading a property \<open>v.k\<close>. On \<open>undefined\<close> and \<open>null\<close> it throws a TypeError. The
  client reads only the names \<open>content\<close>, \<open>error\<close>, \<open>message\<close>, \<open>value\<close> and
  \<open>@odata.context\<close>, none of which a built-in prototype defines, so on every other
  value the result is the own property, or \<open>undefined\<close>.
\<close>

fun js_get :: "jsval \<Rightarrow> string \<Rightarrow> error + jsval" where
  "js_get JUndefined k = Inl TypeError"
| "js_get JNull k = Inl TypeError"
| "js_get (JObj kvs) k = Inr (case map_of kvs k of Some v \<Rightarrow> v | None \<Rightarrow> JUndefined)"
| "js_get v k = Inr JUndefined"

text \<open>
  Assignment \<open>obj[k] = v\<close> on an object created by the literal \<open>{}\<close>: an existing own
  property keeps its place, a new one is added last. The name \<open>__proto__\<close> is the
  accessor of \<open>Object.prototype\<close>: assigning to it creates no own property.
\<close>

definition js_set :: "(string \<times> jsval) list \<Rightarrow> string \<Rightarrow> jsval \<Rightarrow> (string \<times> jsval) list" where
  "js_set obj k v = (if k = ''__proto__'' then obj else AList.update k v obj)"

text \<open>Decimal rendering of an array index, as \<open>Object.keys\<close> names it.\<close>

definition digit_char :: "nat \<Rightarrow> char" where
  "digit_char d = char_of (48 + d)"

function show_nat :: "nat \<Rightarrow> string" where
  "show_nat n = (if n < 10 then [digit_char n] else show_nat (n div 10) @ [digit_char (n mod 10)])"
  by pat_completeness auto
termination
  by (relation "measure id") auto

text \<open>
  \<open>Object.keys(data)\<close> paired with \<open>data[key]\<close>: it throws on \<open>undefined\<close> and \<open>null\<close>,
  is empty for booleans, numbers and dates, and lists the indices of a string or an array.
\<close>

definition indexed :: "jsval list \<Rightarrow> (string \<times> jsval) list" where
  "indexed xs = zip (map show_nat [0..<length xs]) xs"

fun Object_entries :: "jsval \<Rightarrow> error + (string \<times> jsval) list" where
  "Object_entries JUndefined = Inl TypeError"
| "Object_entries JNull = Inl TypeError"
| "Object_entries (JBool b) = Inr []"
| "Object_entries (JNum x) = Inr []"
| "Object_entries (JStr s) = Inr (indexed (map (\<lambda>c. JStr [c]) s))"
| "Object_entries (JDate t) = Inr []"
| "Object_entries (JArr xs) = Inr (indexed xs)"
| "Object_entries (JObj kvs) = Inr kvs"

section \<open>JavaScript strings\<close>

text \<open>
  \<open>String.prototype.includes\<close>, \<open>indexOf\<close> (\<open>-1\<close> when the search string does not
  occur) and \<open>substring\<close> (both ends clamped to the string, swapped when out of order).
\<close>

fun str_includes :: "string \<Rightarrow> string \<Rightarrow> bool" where
  "str_includes [] sub = (sub = [])"
| "str_includes (c # cs) sub = (prefix sub (c # cs) \<or> str_includes cs sub)"

fun indexOf :: "string \<Rightarrow> string \<Rightarrow> int" where
  "indexOf [] sub = (if sub = [] then 0 else - 1)"
| "indexOf (c # cs) sub =
     (if prefix sub (c # cs) then 0
      else (let i = indexOf cs sub in if i < 0 then - 1 else i + 1))"

definition substring :: "string \<Rightarrow> int \<Rightarrow> int \<Rightarrow> string" where
  "substring s a b =
     (let n = int (length s);
          a' = min (max a 0) n;
          b' = min (max b 0) n;
          lo = min a' b';
          hi = max a' b'
      in take (nat (hi - lo)) (drop (nat lo) s))"

section \<open>Property-name normalization\<close>

definition FORMATTED_VALUE :: string where
  "FORMATTED_VALUE = ''@OData.Community.Display.V1.FormattedValue''"

definition LOGICAL_NAME :: string where
  "LOGICAL_NAME = ''@Microsoft.Dynamics.CRM.lookuplogicalname''"

definition NAVIGATION_PROPERTY :: string where
  "NAVIGATION_PROPERTY = ''@Microsoft.Dynamics.CRM.associatednavigationproperty''"

text \<open>
  \<open>getNormalizedPropertyName\<close>: \<open>index\<close> and \<open>suffix\<close> (here \<open>sfx\<close>) start undefined (\<open>None\<close>) and
  are overwritten by each of the three tests in turn; the final test \<open>index && suffix\<close>
  is false for an undefined index and also for the index \<open>0\<close>.
\<close>

definition getNormalizedPropertyName :: "string \<Rightarrow> string" where
  "getNormalizedPropertyName propertyName =
     (let st0 = (None, None);
          st1 = (if str_includes propertyName FORMATTED_VALUE
                 then (Some (indexOf propertyName FORMATTED_VALUE), Some ''_formatted'')
                 else st0);
          st2 = (if str_includes propertyName LOGICAL_NAME
                 then (Some (indexOf propertyName LOGICAL_NAME), Some ''_logical'')
                 else st1);
          st3 = (if str_includes propertyName NAVIGATION_PROPERTY
                 then (Some (indexOf propertyName NAVIGATION_PROPERTY), Some ''_navigationproperty'')
                 else st2)
      in case st3 of
           (Some index, Some sfx) \<Rightarrow>
             if index \<noteq> 0 \<and> sfx \<noteq> [] then substring propertyName 0 index @ sfx
             else propertyName
         | _ \<Rightarrow> propertyName)"

text \<open>
  \<open>parsePrefixedEntity\<close>: a fresh object receives, for every key of \<open>data\<close> in
  \<open>Object.keys\<close> order, the value of that key under the normalized name.
\<close>

definition parsePrefixedEntity :: "jsval \<Rightarrow> error + jsval" where
  "parsePrefixedEntity data =
     (case Object_entries data of
        Inl e \<Rightarrow> Inl e
      | Inr kvs \<Rightarrow>
          Inr (JObj (foldl (\<lambda>normalizedObject (propertyName, v).
                 js_set normalizedObject (getNormalizedPropertyName propertyName) v) [] kvs)))"

text \<open>
  The method call \<open>x.includes(s)\<close>: the substring test on a string, membership on an
  array, and a TypeError on every value that has no such method.
\<close>

fun js_includes :: "jsval \<Rightarrow> string \<Rightarrow> error + bool" where
  "js_includes (JStr s) sub = Inr (str_includes s sub)"
| "js_includes (JArr xs) sub = Inr (JStr sub \<in> set xs)"
| "js_includes v sub = Inl TypeError"

text \<open>\<open>xs.map(entity => parsePrefixedEntity(entity))\<close>: the first throw ends the map.\<close>

fun map_entities :: "jsval list \<Rightarrow> error + jsval list" where
  "map_entities [] = Inr []"
| "map_entities (x # xs) =
     (case parsePrefixedEntity x of
        Inl e \<Rightarrow> Inl e
      | Inr y \<Rightarrow> (case map_entities xs of Inl e \<Rightarrow> Inl e | Inr ys \<Rightarrow> Inr (y # ys)))"

text \<open>
  \<open>processGetResponse\<close>. The call \<open>json.value.map\<close> throws unless the truthy
  \<open>value\<close> is an array; the result of the map is stored back under \<open>value\<close>.
\<close>

definition processGetResponse :: "jsval \<Rightarrow> error + jsval" where
  "processGetResponse json =
     (case js_get json ''@odata.context'' of
        Inl e \<Rightarrow> Inl e
      | Inr ctx \<Rightarrow>
          (case js_includes ctx ''/$entity'' of
             Inl e \<Rightarrow> Inl e
           | Inr True \<Rightarrow> parsePrefixedEntity json
           | Inr False \<Rightarrow>
               (case js_get json ''value'' of
                  Inl e \<Rightarrow> Inl e
                | Inr v \<Rightarrow>
                    if truthy v then
                      (case (v, json) of
                         (JArr xs, JObj kvs) \<Rightarrow>
                           (case map_entities xs of
                              Inl e \<Rightarrow> Inl e
                            | Inr ys \<Rightarrow> Inr (JObj (AList.update ''value'' (JArr ys) kvs)))
                       | _ \<Rightarrow> Inl TypeError)
                    else Inr json)))"

text \<open>
  Vocabulary for stating what the normalization does: the annotations a name contains,
  the suffix that replaces each annotation, and the loop of \<open>parsePrefixedEntity\<close>
  started from an arbitrary object.
\<close>

definition annotations_of :: "string \<Rightarrow> string list" where
  "annotations_of k =
     filter (str_includes k) [FORMATTED_VALUE, LOGICAL_NAME, NAVIGATION_PROPERTY]"

definition suffix_for :: "string \<Rightarrow> string" where
  "suffix_for A = (if A = FORMATTED_VALUE then ''_formatted''
                   else if A = LOGICAL_NAME then ''_logical'' else ''_navigationproperty'')"

definition normalize_into ::
  "(string \<times> jsval) list \<Rightarrow> (string \<times> jsval) list \<Rightarrow> (string \<times> jsval) list" where
  "normalize_into acc kvs =
     foldl (\<lambda>normalizedObject (propertyName, v).
              js_set normalizedObject (getNormalizedPropertyName propertyName) v) acc kvs"

section \<open>Extraction of the batch payload\<close>

text \<open>
  \<open>extractBatchData\<close> builds a regular expression from five pieces and returns the
  first capture group of \<open>textContent.match(...)\<close>, or nothing when there is no match.
  The expressions used are literals, character classes, greedy \<open>+\<close> and \<open>*\<close> on a
  character class, concatenation and one capture group.
\<close>

datatype rx =
    Lit string
  | Cls "char \<Rightarrow> bool"
  | Plus "char \<Rightarrow> bool"
  | Star "char \<Rightarrow> bool"
  | Seq rx rx
  | Group rx

text \<open>
  Backtracking matching at the start of a string. The result lists every way the
  expression can match, as the pair of the text captured by the group (if the group
  took part) and the remaining input, in the order in which a backtracking matcher
  tries them: a greedy repetition tries the longest run first.
\<close>

fun greedy :: "(char \<Rightarrow> bool) \<Rightarrow> string \<Rightarrow> string list" where
  "greedy P [] = []"
| "greedy P (c # cs) = (if P c then greedy P cs @ [cs] else [])"

fun rmatch :: "rx \<Rightarrow> string \<Rightarrow> (string option \<times> string) list" where
  "rmatch (Lit l) s = (if prefix l s then [(None, drop (length l) s)] else [])"
| "rmatch (Cls P) s = (case s of [] \<Rightarrow> [] | c # cs \<Rightarrow> if P c then [(None, cs)] else [])"
| "rmatch (Plus P) s = map (Pair None) (greedy P s)"
| "rmatch (Star P) s = map (Pair None) (greedy P s @ [s])"
| "rmatch (Seq a b) s =
     concat (map (\<lambda>(c1, r1). map (\<lambda>(c2, r2). (if c2 = None then c1 else c2, r2)) (rmatch b r1))
                 (rmatch a s))"
| "rmatch (Group a) s = map (\<lambda>(c, r). (Some (take (length s - length r) s), r)) (rmatch a s)"

text \<open>
  \<open>String.prototype.match\<close> with a non-global expression: the first start position
  with a match wins, and there the first match in backtracking order. The result is
  the capture of group 1.
\<close>

fun js_match :: "rx \<Rightarrow> string \<Rightarrow> string option option" where
  "js_match re [] = (case rmatch re [] of [] \<Rightarrow> None | m # ms \<Rightarrow> Some (fst m))"
| "js_match re (c # cs) =
     (case rmatch re (c # cs) of [] \<Rightarrow> js_match re cs | m # ms \<Rightarrow> Some (fst m))"

text \<open>
  The character classes, for code units below 256: \<open>\s\<close> is tab, line feed, vertical
  tab, form feed, carriage return, space and no-break space; \<open>.\<close> is everything but a
  line terminator.
\<close>

abbreviation LF :: char where
  "LF \<equiv> CHR 0x0A"

abbreviation CR :: char where
  "CR \<equiv> CHR 0x0D"

definition is_space :: "char \<Rightarrow> bool" where
  "is_space c \<longleftrightarrow>
     c \<in> set [CHR 0x09, LF, CHR 0x0B, CHR 0x0C, CR, CHR 0x20, CHR 0xA0]"

definition is_digit :: "char \<Rightarrow> bool" where
  "is_digit c \<longleftrightarrow> c \<in> set ''0123456789''"

definition is_word :: "char \<Rightarrow> bool" where
  "is_word c \<longleftrightarrow>
     c \<in> set ''abcdefghijklmnopqrstuvwxyzABCDEFGHIJKLMNOPQRSTUVWXYZ0123456789_''"

definition is_hexdash :: "char \<Rightarrow> bool" where
  "is_hexdash c \<longleftrightarrow> c \<in> set ''-0123456789abcdefABCDEF''"

definition is_headerch :: "char \<Rightarrow> bool" where
  "is_headerch c \<longleftrightarrow> c = CHR ''-'' \<or> is_word c \<or> is_space c \<or> c \<in> set ''/.;:=''"

definition is_statusch :: "char \<Rightarrow> bool" where
  "is_statusch c \<longleftrightarrow> c = CHR ''-'' \<or> is_space c \<or> is_word c"

definition is_dot :: "char \<Rightarrow> bool" where
  "is_dot c \<longleftrightarrow> c \<noteq> LF \<and> c \<noteq> CR"

definition batchStart :: rx where
  "batchStart = Seq (Lit ''--batchresponse_'') (Seq (Plus is_hexdash) (Cls is_space))"

definition headers :: rx where
  "headers = Seq (Seq (Plus is_headerch) (Cls is_space)) (Cls is_space)"

definition httpStatus :: rx where
  "httpStatus =
     Seq (Lit ''HTTP/'') (Seq (Cls is_digit) (Seq (Lit ''.'') (Seq (Cls is_digit)
       (Seq (Cls is_space) (Seq (Plus is_digit) (Seq (Cls is_space)
         (Seq (Plus is_statusch) (Cls is_space))))))))"

definition jsonBlob :: rx where
  "jsonBlob = Seq (Lit ''{'') (Seq (Star is_dot) (Lit ''}''))"

definition jsonData :: rx where
  "jsonData = Seq (Group jsonBlob) (Plus is_space)"

definition batchEnd :: rx where
  "batchEnd = Seq (Lit ''--batchresponse_'') (Seq (Plus is_hexdash) (Lit ''--''))"

definition batchResponseRegExp :: rx where
  "batchResponseRegExp =
     Seq batchStart (Seq headers (Seq httpStatus (Seq headers (Seq jsonData batchEnd))))"

text \<open>\<open>None\<close> is \<open>undefined\<close>: the function returns nothing when there is no match.\<close>

definition extractBatchData :: "string \<Rightarrow> string option" where
  "extractBatchData textContent =
     (case js_match batchResponseRegExp textContent of
        None \<Rightarrow> None
      | Some g1 \<Rightarrow> g1)"

text \<open>
  What an expression matches, apart from any matching order: the pairs of a matched
  text and the text captured in it by the group (\<open>None\<close> when the expression has no
  group).
\<close>

fun sem :: "rx \<Rightarrow> (string \<times> string option) set" where
  "sem (Lit l) = {(l, None)}"
| "sem (Cls P) = {([c], None) |c. P c}"
| "sem (Plus P) = {(w, None) |w. w \<noteq> [] \<and> list_all P w}"
| "sem (Star P) = {(w, None) |w. list_all P w}"
| "sem (Seq a b) =
     {(u @ v, if c2 = None then c1 else c2) |u v c1 c2. (u, c1) \<in> sem a \<and> (v, c2) \<in> sem b}"
| "sem (Group a) = {(w, Some w) |w. \<exists>c. (w, c) \<in> sem a}"

fun nogroup :: "rx \<Rightarrow> bool" where
  "nogroup (Seq a b) = (nogroup a \<and> nogroup b)"
| "nogroup (Group a) = False"
| "nogroup r = True"

definition rests :: "rx \<Rightarrow> string \<Rightarrow> string list" where
  "rests r s = map snd (rmatch r s)"

text \<open>
  The expression split in two: everything before the capture group, and the rest.
\<close>

definition batchPrefix :: rx where
  "batchPrefix = Seq batchStart (Seq headers (Seq httpStatus headers))"

definition batchTail :: rx where
  "batchTail = Seq jsonData batchEnd"

text \<open>
  The structural template in the words of the specification: a boundary marker,
  header-like lines, an HTTP status line, header-like lines, a \<open>{...}\<close> blob on one
  line, whitespace, and the closing boundary marker.
\<close>

definition boundary_open :: "string \<Rightarrow> bool" where
  "boundary_open b \<longleftrightarrow>
     (\<exists>u c. b = ''--batchresponse_'' @ u @ [c] \<and> u \<noteq> [] \<and> list_all is_hexdash u \<and> is_space c)"

definition header_lines :: "string \<Rightarrow> bool" where
  "header_lines h \<longleftrightarrow>
     (\<exists>u c d. h = u @ [c, d] \<and> u \<noteq> [] \<and> list_all is_headerch u \<and> is_space c \<and> is_space d)"

definition status_line :: "string \<Rightarrow> bool" where
  "status_line t \<longleftrightarrow>
     (\<exists>a b c n d r e.
        t = ''HTTP/'' @ [a] @ ''.'' @ [b] @ [c] @ n @ [d] @ r @ [e] \<and>
        is_digit a \<and> is_digit b \<and> is_space c \<and> n \<noteq> [] \<and> list_all is_digit n \<and>
        is_space d \<and> r \<noteq> [] \<and> list_all is_statusch r \<and> is_space e)"

definition json_blob :: "string \<Rightarrow> bool" where
  "json_blob j \<longleftrightarrow> (\<exists>m. j = ''{'' @ m @ ''}'' \<and> list_all is_dot m)"

definition boundary_close :: "string \<Rightarrow> bool" where
  "boundary_close e \<longleftrightarrow>
     (\<exists>u. e = ''--batchresponse_'' @ u @ ''--'' \<and> u \<noteq> [] \<and> list_all is_hexdash u)"

definition batch_template :: "string \<Rightarrow> string \<Rightarrow> string \<Rightarrow> string \<Rightarrow> bool" where
  "batch_template pre j post body \<longleftrightarrow>
     (\<exists>b h1 t h2 ws e.
        body = pre @ b @ h1 @ t @ h2 @ j @ ws @ e @ post \<and>
        boundary_open b \<and> header_lines h1 \<and> status_line t \<and> header_lines h2 \<and>
        json_blob j \<and> ws \<noteq> [] \<and> list_all is_space ws \<and> boundary_close e)"

section \<open>The batch request body\<close>

text \<open>
  The configuration read at start-up. \<open>validateConfig\<close> is not among the sources; it
  yields the two strings, which are parameters here, as is the environment variable
  \<open>OBJECT_REFERENCE_RETRIES\<close> (\<open>None\<close> when it is not set).
\<close>

record config =
  CRM_HOST :: string
  CRM_URL_PATH :: string
  env_OBJECT_REFERENCE_RETRIES :: "string option"

definition CRM_URL :: "config \<Rightarrow> string" where
  "CRM_URL cfg = CRM_HOST cfg @ CRM_URL_PATH cfg"

definition BATCH_NAME :: string where
  "BATCH_NAME = ''batch''"

text \<open>
  \<open>makeBatchBody\<close> is one template literal. It opens with a line break right after the
  back-tick and closes with one right before the closing back-tick.
\<close>

definition makeBatchBody :: "config \<Rightarrow> string \<Rightarrow> string \<Rightarrow> string" where
  "makeBatchBody cfg query fetchXML =
     [LF] @
     ''--'' @ BATCH_NAME @ [LF] @
     ''Content-Type: application/http'' @ [LF] @
     ''Content-Transfer-Encoding: binary'' @ [LF] @
     [LF] @
     ''GET '' @ CRM_URL cfg @ query @ ''?fetchXml='' @ fetchXML @ '' HTTP/1.1'' @ [LF] @
     ''Content-Type: application/json'' @ [LF] @
     ''OData-Version: 4.0'' @ [LF] @
     ''OData-MaxCersion: 4.0'' @ [LF] @
     [LF] @
     ''--'' @ BATCH_NAME @ ''--'' @ [LF]"

text \<open>
  The template of the specification, line by line, and its text when nothing stands
  before the first line or after the last one.
\<close>

definition batch_template_lines :: "string \<Rightarrow> string \<Rightarrow> string \<Rightarrow> string list" where
  "batch_template_lines base query fetchXML =
     [''--batch'',
      ''Content-Type: application/http'',
      ''Content-Transfer-Encoding: binary'',
      [],
      ''GET '' @ base @ query @ ''?fetchXml='' @ fetchXML @ '' HTTP/1.1'',
      ''Content-Type: application/json'',
      ''OData-Version: 4.0'',
      ''OData-MaxCersion: 4.0'',
      [],
      ''--batch--'']"

fun join_lines :: "string list \<Rightarrow> string" where
  "join_lines [] = []"
| "join_lines [l] = l"
| "join_lines (l # ls) = l @ [LF] @ join_lines ls"

definition spec_batch_body :: "string \<Rightarrow> string \<Rightarrow> string \<Rightarrow> string" where
  "spec_batch_body base query fetchXML = join_lines (batch_template_lines base query fetchXML)"

section \<open>Built-ins and collaborators\<close>

text \<open>
  What the client calls but does not define is a parameter: the JSON parser and
  serializer, the conversion of a string to a number, \<open>Date.parse\<close> and the \<open>Date\<close>
  constructor, the token provider and the network. The token provider and \<open>fetch\<close>
  are indexed by the number of the request, so that successive requests can be
  answered differently. \<open>None\<close> stands for a SyntaxError of the parser, for a string
  that denotes no finite number, for an invalid date, and for a token that cannot be
  acquired.
\<close>

record request =
  req_method :: string
  req_url :: string
  req_headers :: "(string \<times> string) list"
  req_body :: "jsval option"

datatype outcome = Rejects | Responds int string

record env =
  JSON_parse :: "string \<Rightarrow> jsval option"
  JSON_stringify :: "jsval \<Rightarrow> string"
  ToNumber :: "string \<Rightarrow> real option"
  Date_parse :: "jsval \<Rightarrow> real option"
  Date_construct :: "jsval \<Rightarrow> real option"
  acquireToken :: "nat \<Rightarrow> string option"
  fetch :: "nat \<Rightarrow> request \<Rightarrow> outcome"

text \<open>
  The state a call changes: how many requests were started, and what was written to
  the console, as the values that the logged message is built from.
\<close>

datatype log_entry = Logged_error | Logged_failure string jsval jsval

record state =
  calls :: nat
  console :: "log_entry list"

text \<open>The Decoded Result \<open>{ status, content }\<close>.\<close>

record decoded =
  status :: int
  content :: jsval

section \<open>The date reviver\<close>

text \<open>
  The function properties of the built-in \<open>Math\<close> object. \<open>dateReviver\<close> calls
  \<open>Math.isNaN\<close>; calling a property that the object does not have throws a TypeError.
\<close>

definition Math_functions :: "string list" where
  "Math_functions =
     [''abs'', ''acos'', ''acosh'', ''asin'', ''asinh'', ''atan'', ''atanh'', ''atan2'',
      ''cbrt'', ''ceil'', ''clz32'', ''cos'', ''cosh'', ''exp'', ''expm1'', ''floor'',
      ''fround'', ''hypot'', ''imul'', ''log'', ''log1p'', ''log10'', ''log2'', ''max'',
      ''min'', ''pow'', ''random'', ''round'', ''sign'', ''sin'', ''sinh'', ''sqrt'',
      ''tan'', ''tanh'', ''trunc'']"

definition dateReviver :: "env \<Rightarrow> string \<Rightarrow> jsval \<Rightarrow> error + jsval" where
  "dateReviver E key v =
     (if ''isNaN'' \<in> set Math_functions then
        (case Date_parse E v of
           None \<Rightarrow> Inr v
         | Some t \<Rightarrow> Inr (JDate (Date_construct E v)))
      else Inl TypeError)"

text \<open>
  \<open>JSON.parse(text, reviver)\<close>. After parsing, a callable reviver is applied bottom-up
  to every property and last to the root under the empty key; a property for which it
  returns \<open>undefined\<close> is deleted. A reviver that is not callable is ignored. The
  argument \<open>undefined\<close> is converted to the text \<open>undefined\<close>, which is not JSON.
\<close>

fun internalize :: "(string \<Rightarrow> jsval \<Rightarrow> error + jsval) \<Rightarrow> string \<Rightarrow> jsval \<Rightarrow> error + jsval"
  and internalize_elems :: "(string \<Rightarrow> jsval \<Rightarrow> error + jsval) \<Rightarrow> nat \<Rightarrow> jsval list \<Rightarrow> error + jsval list"
  and internalize_props :: "(string \<Rightarrow> jsval \<Rightarrow> error + jsval) \<Rightarrow> (string \<times> jsval) list \<Rightarrow> error + (string \<times> jsval) list"
where
  "internalize f name (JArr xs) =
     (case internalize_elems f 0 xs of Inl e \<Rightarrow> Inl e | Inr ys \<Rightarrow> f name (JArr ys))"
| "internalize f name (JObj kvs) =
     (case internalize_props f kvs of Inl e \<Rightarrow> Inl e | Inr kvs' \<Rightarrow> f name (JObj kvs'))"
| "internalize f name JUndefined = f name JUndefined"
| "internalize f name JNull = f name JNull"
| "internalize f name (JBool b) = f name (JBool b)"
| "internalize f name (JNum x) = f name (JNum x)"
| "internalize f name (JStr s) = f name (JStr s)"
| "internalize f name (JDate t) = f name (JDate t)"
| "internalize_elems f i [] = Inr []"
| "internalize_elems f i (x # xs) =
     (case internalize f (show_nat i) x of
        Inl e \<Rightarrow> Inl e
      | Inr y \<Rightarrow>
          (case internalize_elems f (Suc i) xs of Inl e \<Rightarrow> Inl e | Inr ys \<Rightarrow> Inr (y # ys)))"
| "internalize_props f [] = Inr []"
| "internalize_props f (kv # kvs) =
     (case internalize f (fst kv) (snd kv) of
        Inl e \<Rightarrow> Inl e
      | Inr y \<Rightarrow>
          (case internalize_props f kvs of
             Inl e \<Rightarrow> Inl e
           | Inr r \<Rightarrow> Inr (if y = JUndefined then r else (fst kv, y) # r)))"

definition JSON_parse_reviving ::
  "env \<Rightarrow> string option \<Rightarrow> (string \<Rightarrow> jsval \<Rightarrow> error + jsval) option \<Rightarrow> error + jsval" where
  "JSON_parse_reviving E text reviver =
     (case text of
        None \<Rightarrow> Inl SyntaxError
      | Some t \<Rightarrow>
          (case JSON_parse E t of
             None \<Rightarrow> Inl SyntaxError
           | Some json \<Rightarrow>
               (case reviver of None \<Rightarrow> Inr json | Some f \<Rightarrow> internalize f [] json)))"

text \<open>
  The members of the class. \<open>doFetch\<close> is an instance method and reads
  \<open>this.dateReviver\<close>; \<open>dateReviver\<close> is declared \<open>static\<close>, so it is a property of the
  class and not of its instances, and the read yields \<open>undefined\<close> (\<open>None\<close>).
\<close>

definition instance_members :: "string list" where
  "instance_members =
     [''ADALClient'', ''getToken'', ''getHeaders'', ''doFetch'', ''doFetchWithRetry'',
      ''doGet'', ''doPatch'', ''doPost'', ''doBatchPost'', ''doDelete'']"

definition static_members :: "string list" where
  "static_members =
     [''extractBatchData'', ''dateReviver'', ''isObjectReferenceError'', ''makeBatchBody'',
      ''processGetResponse'', ''parsePrefixedEntity'', ''getNormalizedPropertyName'']"

definition this_dateReviver :: "env \<Rightarrow> (string \<Rightarrow> jsval \<Rightarrow> error + jsval) option" where
  "this_dateReviver E =
     (if ''dateReviver'' \<in> set instance_members then Some (dateReviver E) else None)"

section \<open>Requests\<close>

definition QUOTE :: char where
  "QUOTE = CHR 0x22"

text \<open>\<open>getHeaders\<close>; \<open>None\<close> when the token provider throws.\<close>

definition getHeaders :: "env \<Rightarrow> nat \<Rightarrow> jsval \<Rightarrow> (string \<times> string) list option" where
  "getHeaders E k isBatch =
     (let contentType = (if truthy isBatch then ''multipart/mixed;boundary='' @ BATCH_NAME
                         else ''application/json; charset=utf-8'')
      in case acquireToken E k of
           None \<Rightarrow> None
         | Some token \<Rightarrow>
             Some [(''Accept-Encoding'', ''gzip, deflate''),
                   (''Content-Type'', contentType),
                   (''Authorization'', ''Bearer '' @ token),
                   (''OData-MaxVersion'', ''4.0''),
                   (''OData-Version'', ''4.0''),
                   (''Accept'', ''application/json''),
                   (''Prefer'', ''odata.include-annotations='' @ [QUOTE] @ ''*'' @ [QUOTE])])"

fun typeof_object :: "jsval \<Rightarrow> bool" where
  "typeof_object JNull = True"
| "typeof_object (JDate t) = True"
| "typeof_object (JArr xs) = True"
| "typeof_object (JObj kvs) = True"
| "typeof_object v = False"

text \<open>
  \<open>doFetch(method, query, data = null, isBatch = false)\<close>. An argument that is
  \<open>undefined\<close> takes its default. Whatever the token provider or the network throws is
  logged and replaced by the generic error. The text handed to the parser, and put
  into the error content when parsing fails, is the variable \<open>text\<close>, which in batch
  mode has been overwritten by the result of \<open>extractBatchData\<close>.
\<close>

definition request_failed :: "string \<Rightarrow> error" where
  "request_failed method = Error_msg (''CRMClient failed to do '' @ method @ '' request'')"

definition doFetch ::
  "config \<Rightarrow> env \<Rightarrow> string \<Rightarrow> string \<Rightarrow> jsval \<Rightarrow> jsval \<Rightarrow> state \<Rightarrow> (error + decoded) \<times> state" where
  "doFetch cfg E method query data0 isBatch0 s =
     (let data = (if data0 = JUndefined then JNull else data0);
          isBatch = (if isBatch0 = JUndefined then JBool False else isBatch0);
          k = calls s;
          s1 = s\<lparr>calls := k + 1\<rparr>;
          failed = (Inl (request_failed method), s1\<lparr>console := console s1 @ [Logged_error]\<rparr>)
      in case getHeaders E k isBatch of
           None \<Rightarrow> failed
         | Some hdrs \<Rightarrow>
             (let body = (if method \<noteq> ''GET'' \<and> truthy data
                          then Some (if typeof_object data then JStr (JSON_stringify E data) else data)
                          else None);
                  req = \<lparr>req_method = method, req_url = CRM_URL cfg @ query,
                         req_headers = hdrs, req_body = body\<rparr>
              in case fetch E k req of
                   Rejects \<Rightarrow> failed
                 | Responds st text0 \<Rightarrow>
                     (let text = (if truthy isBatch then extractBatchData text0 else Some text0)
                      in case JSON_parse_reviving E text (this_dateReviver E) of
                           Inr json \<Rightarrow> (Inr \<lparr>status = st, content = json\<rparr>, s1)
                         | Inl e \<Rightarrow>
                             (Inr \<lparr>status = st,
                                   content = JObj [(''error'', JObj [(''message'',
                                     (case text of None \<Rightarrow> JUndefined | Some t \<Rightarrow> JStr t))])]\<rparr>,
                              s1))))"

section \<open>Retry\<close>

definition OBJECT_REFERENCE_ERROR :: string where
  "OBJECT_REFERENCE_ERROR = ''Object reference not set to an instance of an object.''"

definition isObjectReferenceError :: "jsval \<Rightarrow> error + bool" where
  "isObjectReferenceError err =
     (case js_get err ''message'' of
        Inl e \<Rightarrow> Inl e
      | Inr m \<Rightarrow> Inr (truthy m \<and> m = JStr OBJECT_REFERENCE_ERROR))"

text \<open>
  The counter \<open>tries\<close>. \<open>process.env.OBJECT_REFERENCE_RETRIES || 1\<close> is the string of the
  environment when it is set and not empty, and the number 1 otherwise; \<open>+ 1\<close> adds to
  a number and appends to a string; \<open>tries -= tries\<close> subtracts the numeric value of
  \<open>tries\<close> from itself, which gives 0, or NaN when that value is not a finite number.
\<close>

datatype counter = Num real | Str string | NaN

definition OBJECT_REFERENCE_RETRIES :: "config \<Rightarrow> counter" where
  "OBJECT_REFERENCE_RETRIES cfg =
     (case env_OBJECT_REFERENCE_RETRIES cfg of
        None \<Rightarrow> Num 1
      | Some v \<Rightarrow> if v = [] then Num 1 else Str v)"

fun plus_one :: "counter \<Rightarrow> counter" where
  "plus_one (Num x) = Num (x + 1)"
| "plus_one (Str v) = Str (v @ ''1'')"
| "plus_one NaN = NaN"

fun minus_self :: "env \<Rightarrow> counter \<Rightarrow> counter" where
  "minus_self E (Num x) = Num (x - x)"
| "minus_self E (Str v) = (case ToNumber E v of None \<Rightarrow> NaN | Some x \<Rightarrow> Num (x - x))"
| "minus_self E NaN = NaN"

fun truthy_counter :: "counter \<Rightarrow> bool" where
  "truthy_counter (Num x) = (x \<noteq> 0)"
| "truthy_counter (Str v) = (v \<noteq> [])"
| "truthy_counter NaN = False"

text \<open>
  The loop of \<open>doFetchWithRetry\<close>, with the variables \<open>tries\<close> and \<open>res\<close> (\<open>None\<close>
  while \<open>res\<close> is still undefined), and the \<open>throw\<close> after the loop.
\<close>

function retry_loop ::
  "config \<Rightarrow> env \<Rightarrow> string \<Rightarrow> string \<Rightarrow> jsval \<Rightarrow> jsval \<Rightarrow> counter \<Rightarrow> decoded option \<Rightarrow> state
   \<Rightarrow> (error + decoded) \<times> state" where
  "retry_loop cfg E method query data isBatch tries res s =
     (if truthy_counter tries then
        (case doFetch cfg E method query data isBatch s of
           (Inl e, s') \<Rightarrow> (Inl e, s')
         | (Inr r, s') \<Rightarrow>
             (case js_get (content r) ''error'' of
                Inl e \<Rightarrow> (Inl e, s')
              | Inr err \<Rightarrow>
                  (case (if truthy err then isObjectReferenceError err else Inr False) of
                     Inl e \<Rightarrow> (Inl e, s')
                   | Inr True \<Rightarrow>
                       retry_loop cfg E method query data isBatch (minus_self E tries) (Some r) s'
                   | Inr False \<Rightarrow> (Inr r, s'))))
      else
        (case res of
           None \<Rightarrow> (Inl TypeError, s)
         | Some r \<Rightarrow>
             (case js_get (content r) ''error'' of
                Inl e \<Rightarrow> (Inl e, s)
              | Inr err \<Rightarrow> (Inl (Error_val err), s))))"
  by pat_completeness auto
termination
proof (relation "measure (\<lambda>(cfg, E, verb, query, data, isBatch, tries, res, s).
                  if truthy_counter tries then 1 else 0)")
  show "wf (measure (\<lambda>(cfg, E, verb, query, data, isBatch, tries, res, s).
                  if truthy_counter tries then (1::nat) else 0))"
    by simp
next
  fix cfg :: config and E :: env and verb query :: string and data isBatch :: jsval
    and tries :: counter and res :: "decoded option" and s :: state
    and x :: "(error + decoded) \<times> state" and x1 :: "error + decoded" and s' :: state
    and r :: decoded and x2 :: "error + jsval" and err :: jsval and x3 :: bool
  assume "truthy_counter tries"
  moreover have "\<not> truthy_counter (minus_self E tries)"
    by (cases tries) (auto split: option.splits)
  ultimately show "((cfg, E, verb, query, data, isBatch, minus_self E tries, Some r, s'),
          (cfg, E, verb, query, data, isBatch, tries, res, s))
         \<in> measure (\<lambda>(cfg, E, verb, query, data, isBatch, tries, res, s).
                  if truthy_counter tries then 1 else 0)"
    by simp
qed

definition doFetchWithRetry ::
  "config \<Rightarrow> env \<Rightarrow> string \<Rightarrow> string \<Rightarrow> jsval \<Rightarrow> jsval \<Rightarrow> state \<Rightarrow> (error + decoded) \<times> state" where
  "doFetchWithRetry cfg E method query data isBatch s =
     retry_loop cfg E method query data isBatch (plus_one (OBJECT_REFERENCE_RETRIES cfg)) None s"

section \<open>The verbs\<close>

text \<open>
  The failure branch shared by the verbs: the logged message is built from
  \<open>res.status\<close> and \<open>res.content.error.message\<close>, and reading \<open>message\<close> throws when
  \<open>error\<close> is undefined. \<open>false\<close> is returned after logging.
\<close>

definition log_failed :: "string \<Rightarrow> jsval \<Rightarrow> jsval \<Rightarrow> state \<Rightarrow> (error + jsval) \<times> state" where
  "log_failed verb st cont s =
     (case js_get cont ''error'' of
        Inl e \<Rightarrow> (Inl e, s)
      | Inr err \<Rightarrow>
          (case js_get err ''message'' of
             Inl e \<Rightarrow> (Inl e, s)
           | Inr m \<Rightarrow>
               (Inr (JBool False),
                s\<lparr>console := console s @ [Logged_failure verb st m]\<rparr>)))"

definition doGet :: "config \<Rightarrow> env \<Rightarrow> string \<Rightarrow> state \<Rightarrow> (error + jsval) \<times> state" where
  "doGet cfg E query s =
     (case doFetchWithRetry cfg E ''GET'' query JUndefined JUndefined s of
        (Inl e, s') \<Rightarrow> (Inl e, s')
      | (Inr res, s') \<Rightarrow>
          (case js_get (content res) ''error'' of
             Inl e \<Rightarrow> (Inl e, s')
           | Inr err \<Rightarrow>
               if \<not> truthy err \<and> status res = 200 then
                 (case processGetResponse (content res) of
                    Inl e \<Rightarrow> (Inl e, s')
                  | Inr json \<Rightarrow> (Inr json, s'))
               else log_failed ''GET'' (JNum (of_int (status res))) (content res) s'))"

definition doPatch :: "config \<Rightarrow> env \<Rightarrow> string \<Rightarrow> jsval \<Rightarrow> state \<Rightarrow> (error + jsval) \<times> state" where
  "doPatch cfg E query body s =
     (case doFetch cfg E ''PATCH'' query body JUndefined s of
        (Inl e, s') \<Rightarrow> (Inl e, s')
      | (Inr res, s') \<Rightarrow>
          (case js_get (content res) ''error'' of
             Inl e \<Rightarrow> (Inl e, s')
           | Inr err \<Rightarrow>
               if \<not> truthy err \<and> status res \<ge> 200 \<and> status res < 300 then (Inr (content res), s')
               else log_failed ''PATCH'' (JNum (of_int (status res))) (content res) s'))"

definition doPost :: "config \<Rightarrow> env \<Rightarrow> string \<Rightarrow> jsval \<Rightarrow> jsval \<Rightarrow> state \<Rightarrow> (error + jsval) \<times> state" where
  "doPost cfg E query body isBatch s =
     (case doFetchWithRetry cfg E ''POST'' query body isBatch s of
        (Inl e, s') \<Rightarrow> (Inl e, s')
      | (Inr res, s') \<Rightarrow>
          (case js_get (content res) ''error'' of
             Inl e \<Rightarrow> (Inl e, s')
           | Inr err \<Rightarrow>
               if \<not> truthy err \<and> status res = 200 then (Inr (content res), s')
               else log_failed ''POST'' (JNum (of_int (status res))) (content res) s'))"

definition doBatchPost :: "config \<Rightarrow> env \<Rightarrow> string \<Rightarrow> string \<Rightarrow> state \<Rightarrow> (error + jsval) \<times> state" where
  "doBatchPost cfg E query fetchXML s =
     (let batchBody = makeBatchBody cfg query fetchXML
      in doPost cfg E ''$batch'' (JStr batchBody) (JBool True) s)"

text \<open>
  \<open>doDelete\<close> calls \<open>doFetch\<close> without \<open>await\<close>: the request is started, and \<open>res\<close> is
  the pending promise, not the Decoded Result. A promise has no property \<open>content\<close> or
  \<open>status\<close>, so both reads give \<open>undefined\<close>.
\<close>

datatype 'a held = Awaited 'a | Promise

fun held_content :: "decoded held \<Rightarrow> jsval" where
  "held_content (Awaited r) = content r"
| "held_content Promise = JUndefined"

fun held_status :: "decoded held \<Rightarrow> jsval" where
  "held_status (Awaited r) = JNum (of_int (status r))"
| "held_status Promise = JUndefined"

definition doDelete :: "config \<Rightarrow> env \<Rightarrow> string \<Rightarrow> state \<Rightarrow> (error + jsval) \<times> state" where
  "doDelete cfg E query s =
     (let started = doFetch cfg E ''DELETE'' query JUndefined JUndefined s;
          s' = snd started;
          res = Promise
      in case js_get (held_content res) ''error'' of
           Inl e \<Rightarrow> (Inl e, s')
         | Inr err \<Rightarrow>
             if \<not> truthy err \<and> held_status res = JNum 200 then (Inr (held_content res), s')
             else log_failed ''DELETE'' (held_status res) (held_content res) s')"

section \<open>Sample scenarios\<close>

text \<open>
  Concrete data for instantiating the theorems: a configuration without the retry
  variable, three response texts with the values that \<open>JSON.parse\<close> gives for them,
  and collaborators that answer the \<open>k\<close>-th request as a given script says. The
  parameters that these scenarios never consult are constant.
\<close>

definition sample_config :: config where
  "sample_config =
     \<lparr>CRM_HOST = ''https://crm.example'', CRM_URL_PATH = ''/api/data/v9.1/'',
      env_OBJECT_REFERENCE_RETRIES = None\<rparr>"

definition quoted :: "string \<Rightarrow> string" where
  "quoted t = [QUOTE] @ t @ [QUOTE]"

definition fault_text :: string where
  "fault_text =
     ''{'' @ quoted ''error'' @ '':{'' @ quoted ''message'' @ '':'' @
     quoted OBJECT_REFERENCE_ERROR @ ''}}''"

definition fault_error :: jsval where
  "fault_error = JObj [(''message'', JStr OBJECT_REFERENCE_ERROR)]"

definition fault_content :: jsval where
  "fault_content = JObj [(''error'', fault_error)]"

definition success_text :: string where
  "success_text =
     ''{'' @ quoted ''@odata.context'' @ '':'' @ quoted ''ctx'' @ '','' @
     quoted ''value'' @ '':[]}''"

definition success_content :: jsval where
  "success_content = JObj [(''@odata.context'', JStr ''ctx''), (''value'', JArr [])]"

definition not_found_text :: string where
  "not_found_text = ''{'' @ quoted ''Message'' @ '':'' @ quoted ''No HTTP resource was found'' @ ''}''"

definition not_found_content :: jsval where
  "not_found_content = JObj [(''Message'', JStr ''No HTTP resource was found'')]"

definition sample_parse :: "string \<Rightarrow> jsval option" where
  "sample_parse t =
     (if t = fault_text then Some fault_content
      else if t = success_text then Some success_content
      else if t = not_found_text then Some not_found_content
      else None)"

definition sample_env :: "(nat \<Rightarrow> outcome) \<Rightarrow> env" where
  "sample_env script =
     \<lparr>JSON_parse = sample_parse,
      JSON_stringify = (\<lambda>v. []),
      ToNumber = (\<lambda>v. None),
      Date_parse = (\<lambda>v. None),
      Date_construct = (\<lambda>v. None),
      acquireToken = (\<lambda>k. Some ''token''),
      fetch = (\<lambda>k req. script k)\<rparr>"

definition fault_then_success :: "nat \<Rightarrow> outcome" where
  "fault_then_success k = (if k = 0 then Responds 200 fault_text else Responds 200 success_text)"

definition not_found :: "nat \<Rightarrow> outcome" where
  "not_found k = Responds 404 not_found_text"

definition initial_state :: state where
  "initial_state = \<lparr>calls = 0, console = []\<rparr>"

text \<open>
  A batch response in the format that the comment of \<open>extractBatchData\<close> describes,
  with CRLF line ends, and the same response cut off before its closing boundary.
\<close>

definition CRLF :: string where
  "CRLF = [CR, LF]"

definition sample_batch_head :: string where
  "sample_batch_head =
     ''--batchresponse_1f2a-9c'' @ CRLF @
     ''Content-Type: application/http'' @ CRLF @
     ''Content-Transfer-Encoding: binary'' @ CRLF @ CRLF @
     ''HTTP/1.1 200 OK'' @ CRLF @
     ''Content-Type: application/json; odata.metadata=minimal'' @ CRLF @
     ''OData-Version: 4.0'' @ CRLF @ CRLF"

definition sample_batch_response :: string where
  "sample_batch_response =
     sample_batch_head @ success_text @ CRLF @ ''--batchresponse_1f2a-9c--'' @ CRLF"

definition truncated_batch_response :: string where
  "truncated_batch_response = sample_batch_head @ success_text @ CRLF"

definition truncated_batch :: "nat \<Rightarrow> outcome" where
  "truncated_batch k = Responds 200 truncated_batch_response"

section \<open>Facts about the string operations\<close>

lemma str_includes_sublist: "str_includes s sub \<longleftrightarrow> sublist sub s"
  by (induction s) (auto simp: sublist_Cons_right)

lemma indexOf_absent: "\<not> str_includes s sub \<Longrightarrow> indexOf s sub = - 1"
  by (induction s) (auto simp: Let_def)

lemma indexOf_present:
  "str_includes s sub \<Longrightarrow> 0 \<le> indexOf s sub \<and> indexOf s sub \<le> int (length s)"
  by (induction s) (auto simp: Let_def)

lemma indexOf_split:
  "str_includes s sub \<Longrightarrow> prefix sub (drop (nat (indexOf s sub)) s)"
proof (induction s)
  case Nil
  then show ?case by simp
next
  case (Cons c cs)
  show ?case
  proof (cases "prefix sub (c # cs)")
    case True
    then show ?thesis by simp
  next
    case False
    with Cons.prems have inc: "str_includes cs sub" by simp
    from indexOf_present[OF inc] have nn: "0 \<le> indexOf cs sub" by simp
    from False nn have "indexOf (c # cs) sub = indexOf cs sub + 1" by (simp add: Let_def)
    moreover have "nat (indexOf cs sub + 1) = Suc (nat (indexOf cs sub))" using nn by simp
    ultimately show ?thesis using Cons.IH[OF inc] by simp
  qed
qed

text \<open>The index is that of the first occurrence: there is none before it.\<close>

lemma indexOf_first:
  "sub \<noteq> [] \<Longrightarrow> str_includes s sub \<Longrightarrow> \<not> sublist sub (take (nat (indexOf s sub)) s)"
proof (induction s)
  case Nil
  then show ?case by simp
next
  case (Cons c cs)
  show ?case
  proof (cases "prefix sub (c # cs)")
    case True
    then show ?thesis using Cons.prems(1) by simp
  next
    case False
    with Cons.prems have inc: "str_includes cs sub" by simp
    from indexOf_present[OF inc] have nn: "0 \<le> indexOf cs sub" by simp
    from False nn have eq: "indexOf (c # cs) sub = indexOf cs sub + 1" by (simp add: Let_def)
    have n: "nat (indexOf cs sub + 1) = Suc (nat (indexOf cs sub))" using nn by simp
    have "\<not> prefix sub (c # take (nat (indexOf cs sub)) cs)"
    proof
      assume "prefix sub (c # take (nat (indexOf cs sub)) cs)"
      moreover have "prefix (c # take (nat (indexOf cs sub)) cs) (c # cs)"
        by (simp add: take_is_prefix)
      ultimately have "prefix sub (c # cs)" by (rule prefix_order.trans)
      with False show False by simp
    qed
    then show ?thesis using Cons.IH[OF Cons.prems(1) inc] eq n
      by (simp add: sublist_Cons_right)
  qed
qed

lemma substring_0: "0 \<le> i \<Longrightarrow> substring s 0 i = take (nat i) s"
  by (auto simp: substring_def Let_def min_def max_def)

section \<open>Facts about \<open>getNormalizedPropertyName\<close>\<close>

lemma gnpn_nav:
  "str_includes p NAVIGATION_PROPERTY \<Longrightarrow>
   getNormalizedPropertyName p =
     (if indexOf p NAVIGATION_PROPERTY = 0 then p
      else take (nat (indexOf p NAVIGATION_PROPERTY)) p @ ''_navigationproperty'')"
  using indexOf_present[of p NAVIGATION_PROPERTY]
  by (simp add: getNormalizedPropertyName_def Let_def substring_0)

lemma gnpn_log:
  "\<not> str_includes p NAVIGATION_PROPERTY \<Longrightarrow> str_includes p LOGICAL_NAME \<Longrightarrow>
   getNormalizedPropertyName p =
     (if indexOf p LOGICAL_NAME = 0 then p
      else take (nat (indexOf p LOGICAL_NAME)) p @ ''_logical'')"
  using indexOf_present[of p LOGICAL_NAME]
  by (simp add: getNormalizedPropertyName_def Let_def substring_0)

lemma gnpn_fv:
  "\<not> str_includes p NAVIGATION_PROPERTY \<Longrightarrow> \<not> str_includes p LOGICAL_NAME \<Longrightarrow>
   str_includes p FORMATTED_VALUE \<Longrightarrow>
   getNormalizedPropertyName p =
     (if indexOf p FORMATTED_VALUE = 0 then p
      else take (nat (indexOf p FORMATTED_VALUE)) p @ ''_formatted'')"
  using indexOf_present[of p FORMATTED_VALUE]
  by (simp add: getNormalizedPropertyName_def Let_def substring_0)

lemma gnpn_none:
  "\<not> str_includes p NAVIGATION_PROPERTY \<Longrightarrow> \<not> str_includes p LOGICAL_NAME \<Longrightarrow>
   \<not> str_includes p FORMATTED_VALUE \<Longrightarrow> getNormalizedPropertyName p = p"
  by (simp add: getNormalizedPropertyName_def Let_def)

lemmas annotation_defs = FORMATTED_VALUE_def LOGICAL_NAME_def NAVIGATION_PROPERTY_def

section \<open>Facts about \<open>parsePrefixedEntity\<close>\<close>

lemma normalize_into_simps:
  "normalize_into acc [] = acc"
  "normalize_into acc ((k, v) # kvs) = normalize_into (js_set acc (getNormalizedPropertyName k) v) kvs"
  by (simp_all add: normalize_into_def)

lemma parsePrefixedEntity_obj: "parsePrefixedEntity (JObj kvs) = Inr (JObj (normalize_into [] kvs))"
  by (simp add: parsePrefixedEntity_def normalize_into_def)

lemma map_of_js_set:
  "map_of (js_set obj k v) n = (if k = ''__proto__'' then map_of obj n else if n = k then Some v else map_of obj n)"
  by (simp add: js_set_def update_conv')

lemma normalize_into_other:
  "n \<notin> getNormalizedPropertyName ` fst ` set kvs \<Longrightarrow> map_of (normalize_into acc kvs) n = map_of acc n"
  by (induction kvs arbitrary: acc) (auto simp: normalize_into_simps map_of_js_set)

lemma normalize_into_bound:
  assumes "distinct (map fst kvs)"
      and "inj_on getNormalizedPropertyName (fst ` set kvs)"
      and "(k, v) \<in> set kvs"
      and "getNormalizedPropertyName k \<noteq> ''__proto__''"
  shows "map_of (normalize_into acc kvs) (getNormalizedPropertyName k) = Some v"
  using assms
proof (induction kvs arbitrary: acc)
  case Nil
  then show ?case by simp
next
  case (Cons kv kvs)
  obtain k0 v0 where kv: "kv = (k0, v0)" by (cases kv)
  show ?case
  proof (cases "(k, v) = (k0, v0)")
    case True
    have "getNormalizedPropertyName k \<notin> getNormalizedPropertyName ` fst ` set kvs"
    proof
      assume "getNormalizedPropertyName k \<in> getNormalizedPropertyName ` fst ` set kvs"
      then obtain k' where k': "k' \<in> fst ` set kvs" "getNormalizedPropertyName k = getNormalizedPropertyName k'"
        by auto
      with Cons.prems(2) True kv have "k = k'" by (auto simp: inj_on_def)
      with k' Cons.prems(1) True kv show False by auto
    qed
    then show ?thesis using True kv Cons.prems(4)
      by (simp add: normalize_into_simps normalize_into_other map_of_js_set)
  next
    case False
    with Cons.prems kv have "(k, v) \<in> set kvs" by auto
    moreover from Cons.prems(1) have "distinct (map fst kvs)" by simp
    moreover from Cons.prems(2) have "inj_on getNormalizedPropertyName (fst ` set kvs)"
      by (auto simp: inj_on_def)
    ultimately show ?thesis using Cons.IH Cons.prems(4) kv
      by (simp add: normalize_into_simps)
  qed
qed

lemma annotation_in_renamed:
  assumes "sublist A (P @ S)" and "hd S \<notin> set A" and "hd A \<notin> set S" and "A \<noteq> []"
  shows "sublist A P"
proof -
  from assms(1) consider "sublist A P" | "sublist A S"
    | xs1 xs2 where "A = xs1 @ xs2" "suffix xs1 P" "prefix xs2 S"
    by (auto simp: sublist_append)
  then show ?thesis
  proof cases
    case 1 then show ?thesis .
  next
    case 2
    then have "set A \<subseteq> set S" by (rule set_mono_sublist)
    with assms(3,4) show ?thesis by (cases A) auto
  next
    case 3
    show ?thesis
    proof (cases xs2)
      case Nil
      with 3 show ?thesis by auto
    next
      case (Cons c cs)
      with 3 have "c \<in> set A" "hd S = c" by (auto simp: prefix_def)
      with assms(2) show ?thesis by auto
    qed
  qed
qed

lemma annotations_distinct:
  "FORMATTED_VALUE \<noteq> LOGICAL_NAME" "FORMATTED_VALUE \<noteq> NAVIGATION_PROPERTY"
  "LOGICAL_NAME \<noteq> NAVIGATION_PROPERTY"
  "FORMATTED_VALUE \<noteq> []" "LOGICAL_NAME \<noteq> []" "NAVIGATION_PROPERTY \<noteq> []"
  by (simp_all add: annotation_defs)

lemma annotation_no_underscore:
  "CHR ''_'' \<notin> set FORMATTED_VALUE" "CHR ''_'' \<notin> set LOGICAL_NAME"
  "CHR ''_'' \<notin> set NAVIGATION_PROPERTY"
  by (simp_all add: annotation_defs)

lemma annotation_suffix_disjoint:
  assumes "A \<in> {FORMATTED_VALUE, LOGICAL_NAME, NAVIGATION_PROPERTY}"
  shows "hd (suffix_for B) \<notin> set A" and "hd A \<notin> set (suffix_for B)"
proof -
  have "hd (suffix_for B) = CHR ''_''" by (simp add: suffix_for_def)
  with assms annotation_no_underscore show "hd (suffix_for B) \<notin> set A" by auto
  from assms have "hd A = CHR ''@''" by (auto simp: annotation_defs)
  then show "hd A \<notin> set (suffix_for B)" by (simp add: suffix_for_def)
qed

lemma gnpn_single:
  assumes "length (annotations_of k) \<le> 1" and "A \<in> set (annotations_of k)"
  shows "getNormalizedPropertyName k =
           (if indexOf k A = 0 then k else take (nat (indexOf k A)) k @ suffix_for A)"
proof -
  from assms have "annotations_of k = [A]"
    by (cases "annotations_of k") auto
  then consider
      "A = FORMATTED_VALUE" "str_includes k FORMATTED_VALUE" "\<not> str_includes k LOGICAL_NAME" "\<not> str_includes k NAVIGATION_PROPERTY"
    | "A = LOGICAL_NAME" "str_includes k LOGICAL_NAME" "\<not> str_includes k NAVIGATION_PROPERTY"
    | "A = NAVIGATION_PROPERTY" "str_includes k NAVIGATION_PROPERTY"
    by (auto simp: annotations_of_def split: if_splits)
  then show ?thesis
  proof cases
    case 1 then show ?thesis by (simp add: gnpn_fv suffix_for_def)
  next
    case 2 then show ?thesis using annotations_distinct by (simp add: gnpn_log suffix_for_def)
  next
    case 3 then show ?thesis using annotations_distinct by (simp add: gnpn_nav suffix_for_def)
  qed
qed

lemma annotations_of_set:
  "set (annotations_of k) = {A \<in> {FORMATTED_VALUE, LOGICAL_NAME, NAVIGATION_PROPERTY}. str_includes k A}"
  by (auto simp: annotations_of_def)

lemma annotations_of_Nil:
  "annotations_of k = [] \<Longrightarrow> getNormalizedPropertyName k = k"
  by (rule gnpn_none) (auto simp: annotations_of_def split: if_splits)

lemma renamed_keeps_no_annotation:
  assumes one: "length (annotations_of k) \<le> 1"
      and A: "A \<in> {FORMATTED_VALUE, LOGICAL_NAME, NAVIGATION_PROPERTY}"
      and sub: "sublist A (getNormalizedPropertyName k)"
  shows "getNormalizedPropertyName k = k"
proof (cases "annotations_of k")
  case Nil
  then show ?thesis by (rule annotations_of_Nil)
next
  case (Cons B bs)
  with one have only: "annotations_of k = [B]" by (cases bs) auto
  then have B: "B \<in> {FORMATTED_VALUE, LOGICAL_NAME, NAVIGATION_PROPERTY}" "str_includes k B"
    using annotations_of_set[of k] by auto
  from only have eq: "getNormalizedPropertyName k =
      (if indexOf k B = 0 then k else take (nat (indexOf k B)) k @ suffix_for B)"
    using gnpn_single[OF one, of B] by simp
  show ?thesis
  proof (cases "indexOf k B = 0")
    case True
    with eq show ?thesis by simp
  next
    case False
    with eq sub have "sublist A (take (nat (indexOf k B)) k @ suffix_for B)" by simp
    moreover from A have "A \<noteq> []" using annotations_distinct by auto
    ultimately have inP: "sublist A (take (nat (indexOf k B)) k)"
      using annotation_in_renamed annotation_suffix_disjoint[OF A] by blast
    then have "sublist A k"
      using sublist_take sublist_order.order.trans by blast
    then have "A \<in> set (annotations_of k)"
      using A by (simp add: annotations_of_set str_includes_sublist)
    with only have "A = B" by simp
    with inP B(2) \<open>A \<noteq> []\<close> indexOf_first[of B k] show ?thesis by simp
  qed
qed

lemma renamed_differs:
  assumes one: "length (annotations_of k) \<le> 1"
      and inc: "str_includes k A" and A: "A \<in> {FORMATTED_VALUE, LOGICAL_NAME, NAVIGATION_PROPERTY}"
      and pos: "0 < indexOf k A"
  shows "getNormalizedPropertyName k = take (nat (indexOf k A)) k @ suffix_for A"
    and "getNormalizedPropertyName k \<noteq> k"
    and "getNormalizedPropertyName k \<noteq> ''__proto__''"
proof -
  from inc A have mem: "A \<in> set (annotations_of k)" by (simp add: annotations_of_set)
  from gnpn_single[OF one mem] pos
  show eq: "getNormalizedPropertyName k = take (nat (indexOf k A)) k @ suffix_for A" by simp
  show "getNormalizedPropertyName k \<noteq> k"
  proof
    assume same: "getNormalizedPropertyName k = k"
    from inc have "sublist A k" by (simp add: str_includes_sublist)
    with same eq have "sublist A (take (nat (indexOf k A)) k @ suffix_for A)" by simp
    moreover from A have ne: "A \<noteq> []" using annotations_distinct by auto
    ultimately have "sublist A (take (nat (indexOf k A)) k)"
      using annotation_in_renamed annotation_suffix_disjoint[OF A] by blast
    with indexOf_first[OF ne inc] show False by simp
  qed
  show "getNormalizedPropertyName k \<noteq> ''__proto__''"
  proof
    assume "getNormalizedPropertyName k = ''__proto__''"
    with eq have "take (nat (indexOf k A)) k @ suffix_for A = ''__proto__''" by simp
    then have "last (take (nat (indexOf k A)) k @ suffix_for A) = last ''__proto__''" by simp
    moreover have "suffix_for A \<noteq> []" by (simp add: suffix_for_def)
    ultimately have "last (suffix_for A) = CHR ''_''" by simp
    then show False by (simp add: suffix_for_def split: if_splits)
  qed
qed

section \<open>Facts about the regular expression\<close>

lemma greedy_set:
  "set (greedy P s) = {t. \<exists>w. w \<noteq> [] \<and> list_all P w \<and> s = w @ t}"
proof (induction s)
  case Nil
  then show ?case by simp
next
  case (Cons c cs)
  show ?case
  proof (cases "P c")
    case False
    then show ?thesis by (auto simp: Cons_eq_append_conv)
  next
    case True
    have "{t. \<exists>w. w \<noteq> [] \<and> list_all P w \<and> c # cs = w @ t} =
          insert cs {t. \<exists>w. w \<noteq> [] \<and> list_all P w \<and> cs = w @ t}" (is "?L = ?R")
    proof
      show "?L \<subseteq> ?R"
      proof
        fix t assume "t \<in> ?L"
        then obtain w where w: "w \<noteq> []" "list_all P w" "c # cs = w @ t" by auto
        then obtain w' where w': "w = c # w'" "cs = w' @ t" by (cases w) auto
        show "t \<in> ?R"
        proof (cases "w' = []")
          case True with w' show ?thesis by simp
        next
          case False with w w' show ?thesis by auto
        qed
      qed
      show "?R \<subseteq> ?L"
      proof
        fix t assume "t \<in> ?R"
        then consider "t = cs" | w where "w \<noteq> []" "list_all P w" "cs = w @ t" by auto
        then show "t \<in> ?L"
        proof cases
          case 1
          then have "[c] \<noteq> [] \<and> list_all P [c] \<and> c # cs = [c] @ t" using True by simp
          then show ?thesis by blast
        next
          case 2
          then have "c # w \<noteq> [] \<and> list_all P (c # w) \<and> c # cs = (c # w) @ t" using True by simp
          then show ?thesis by blast
        qed
      qed
    qed
    with True Cons.IH show ?thesis by simp
  qed
qed

lemma rmatch_sem:
  "set (rmatch r s) = {(c, t). \<exists>w. s = w @ t \<and> (w, c) \<in> sem r}"
proof (induction r arbitrary: s)
  case (Lit l)
  then show ?case by (auto simp: prefix_def)
next
  case (Cls P)
  then show ?case by (cases s) auto
next
  case (Plus P)
  then show ?case by (auto simp: greedy_set)
next
  case (Star P)
  show ?case
  proof -
    have "set (rmatch (Star P) s) = Pair None ` (set (greedy P s) \<union> {s})" by auto
    also have "set (greedy P s) \<union> {s} = {t. \<exists>w. list_all P w \<and> s = w @ t}"
    proof -
      have "{t. \<exists>w. list_all P w \<and> s = w @ t} =
            {t. \<exists>w. w \<noteq> [] \<and> list_all P w \<and> s = w @ t} \<union> {s}"
        by (auto simp: exI[of _ "[]"])
      then show ?thesis by (simp add: greedy_set)
    qed
    finally show ?thesis by auto
  qed
next
  case (Seq a b)
  have ha: "(c1, r1) \<in> set (rmatch a s) \<longleftrightarrow> (\<exists>u. s = u @ r1 \<and> (u, c1) \<in> sem a)" for c1 r1
    by (simp add: Seq.IH)
  have hb: "(c2, r2) \<in> set (rmatch b r1) \<longleftrightarrow> (\<exists>v. r1 = v @ r2 \<and> (v, c2) \<in> sem b)" for c2 r2 r1
    by (simp add: Seq.IH)
  have mem: "(c, t) \<in> set (rmatch (Seq a b) s) \<longleftrightarrow>
          (\<exists>c1 r1 c2. (c1, r1) \<in> set (rmatch a s) \<and> (c2, t) \<in> set (rmatch b r1) \<and>
             c = (if c2 = None then c1 else c2))" for c t
    by (auto simp: image_iff) force+
  show ?case
  proof (rule set_eqI, clarify)
    fix c t
    have "(c, t) \<in> set (rmatch (Seq a b) s) \<longleftrightarrow> (\<exists>w. s = w @ t \<and> (w, c) \<in> sem (Seq a b))"
    proof
      assume "(c, t) \<in> set (rmatch (Seq a b) s)"
      then obtain c1 r1 c2 where h: "(c1, r1) \<in> set (rmatch a s)" "(c2, t) \<in> set (rmatch b r1)"
        "c = (if c2 = None then c1 else c2)" unfolding mem by blast
      from h(1) obtain u where u: "s = u @ r1" "(u, c1) \<in> sem a" unfolding ha by blast
      from h(2) obtain v where v: "r1 = v @ t" "(v, c2) \<in> sem b" unfolding hb by blast
      from u v h(3) have "s = (u @ v) @ t" "(u @ v, c) \<in> sem (Seq a b)" by auto
      then show "\<exists>w. s = w @ t \<and> (w, c) \<in> sem (Seq a b)" by blast
    next
      assume "\<exists>w. s = w @ t \<and> (w, c) \<in> sem (Seq a b)"
      then obtain w where w: "s = w @ t" "(w, c) \<in> sem (Seq a b)" by blast
      then obtain u v c1 c2 where h: "w = u @ v" "(u, c1) \<in> sem a" "(v, c2) \<in> sem b"
        "c = (if c2 = None then c1 else c2)" by auto
      from w h have "s = u @ (v @ t)" by simp
      with h(2) have 1: "(c1, v @ t) \<in> set (rmatch a s)" unfolding ha by blast
      from h(3) have 2: "(c2, t) \<in> set (rmatch b (v @ t))" unfolding hb by blast
      from 1 2 h(4) show "(c, t) \<in> set (rmatch (Seq a b) s)" unfolding mem by blast
    qed
    then show "(c, t) \<in> set (rmatch (Seq a b) s) \<longleftrightarrow>
        (c, t) \<in> {(c, t). \<exists>w. s = w @ t \<and> (w, c) \<in> sem (Seq a b)}" by simp
  qed
next
  case (Group a)
  have ha: "(c1, r1) \<in> set (rmatch a s) \<longleftrightarrow> (\<exists>u. s = u @ r1 \<and> (u, c1) \<in> sem a)" for c1 r1
    by (simp add: Group.IH)
  have mem: "(c, t) \<in> set (rmatch (Group a) s) \<longleftrightarrow>
          (\<exists>c'. (c', t) \<in> set (rmatch a s) \<and> c = Some (take (length s - length t) s))" for c t
    by (auto simp: image_iff) force
  show ?case
  proof (rule set_eqI, clarify)
    fix c t
    have "(c, t) \<in> set (rmatch (Group a) s) \<longleftrightarrow> (\<exists>w. s = w @ t \<and> (w, c) \<in> sem (Group a))"
    proof
      assume "(c, t) \<in> set (rmatch (Group a) s)"
      then obtain c' where h: "(c', t) \<in> set (rmatch a s)" "c = Some (take (length s - length t) s)"
        unfolding mem by blast
      from h(1) obtain u where u: "s = u @ t" "(u, c') \<in> sem a" unfolding ha by blast
      with h(2) have "c = Some u" by simp
      with u show "\<exists>w. s = w @ t \<and> (w, c) \<in> sem (Group a)" by auto
    next
      assume "\<exists>w. s = w @ t \<and> (w, c) \<in> sem (Group a)"
      then obtain w c' where w: "s = w @ t" "(w, c') \<in> sem a" "c = Some w" by auto
      then have "(c', t) \<in> set (rmatch a s)" unfolding ha by blast
      moreover from w have "c = Some (take (length s - length t) s)" by simp
      ultimately show "(c, t) \<in> set (rmatch (Group a) s)" unfolding mem by blast
    qed
    then show "(c, t) \<in> set (rmatch (Group a) s) \<longleftrightarrow>
        (c, t) \<in> {(c, t). \<exists>w. s = w @ t \<and> (w, c) \<in> sem (Group a)}" by simp
  qed
qed

lemma in_sem_Seq:
  "(w, c) \<in> sem (Seq a b) \<longleftrightarrow>
     (\<exists>u v c1 c2. w = u @ v \<and> (u, c1) \<in> sem a \<and> (v, c2) \<in> sem b \<and>
        c = (if c2 = None then c1 else c2))"
  by (simp only: sem.simps mem_Collect_eq prod.inject) blast

lemma in_sem_Lit: "(w, c) \<in> sem (Lit l) \<longleftrightarrow> w = l \<and> c = None"
  by simp

lemma in_sem_Cls: "(w, c) \<in> sem (Cls P) \<longleftrightarrow> (\<exists>d. w = [d] \<and> P d) \<and> c = None"
  by (simp only: sem.simps mem_Collect_eq prod.inject) blast

lemma in_sem_Plus: "(w, c) \<in> sem (Plus P) \<longleftrightarrow> w \<noteq> [] \<and> list_all P w \<and> c = None"
  by (simp only: sem.simps mem_Collect_eq prod.inject) blast

lemma in_sem_Star: "(w, c) \<in> sem (Star P) \<longleftrightarrow> list_all P w \<and> c = None"
  by (simp only: sem.simps mem_Collect_eq prod.inject) blast

lemma in_sem_Group: "(w, c) \<in> sem (Group a) \<longleftrightarrow> (\<exists>c'. (w, c') \<in> sem a) \<and> c = Some w"
  by (simp only: sem.simps mem_Collect_eq prod.inject) blast

declare sem.simps [simp del]

lemma nogroup_sem: "nogroup r \<Longrightarrow> (w, c) \<in> sem r \<Longrightarrow> c = None"
proof (induction r arbitrary: w c)
  case (Seq a b)
  from Seq.prems(2) obtain u v c1 c2 where h: "(u, c1) \<in> sem a" "(v, c2) \<in> sem b"
    "c = (if c2 = None then c1 else c2)" unfolding in_sem_Seq by blast
  from Seq.prems(1) have "nogroup a" "nogroup b" by simp_all
  with Seq.IH h(1,2) have "c1 = None" "c2 = None" by blast+
  with h(3) show ?case by simp
qed (simp_all add: in_sem_Lit in_sem_Cls in_sem_Plus in_sem_Star)

lemma sem_app: "(u, None) \<in> sem a \<Longrightarrow> (v, None) \<in> sem b \<Longrightarrow> (u @ v, None) \<in> sem (Seq a b)"
  unfolding in_sem_Seq by (intro exI[of _ u] exI[of _ v] exI[of _ None]) simp

lemma sem_LitI: "(l, None) \<in> sem (Lit l)"
  by (simp add: in_sem_Lit)

lemma sem_ClsI: "P c \<Longrightarrow> ([c], None) \<in> sem (Cls P)"
  by (simp add: in_sem_Cls)

lemma sem_PlusI: "w \<noteq> [] \<Longrightarrow> list_all P w \<Longrightarrow> (w, None) \<in> sem (Plus P)"
  by (simp add: in_sem_Plus)

lemma sem_StarI: "list_all P w \<Longrightarrow> (w, None) \<in> sem (Star P)"
  by (simp add: in_sem_Star)

lemma sem_Seq_plainE:
  assumes "(w, c) \<in> sem (Seq a b)" and "nogroup a"
  obtains u v where "w = u @ v" "(u, None) \<in> sem a" "(v, c) \<in> sem b"
proof -
  from assms(1) obtain u v c1 c2 where h: "w = u @ v" "(u, c1) \<in> sem a" "(v, c2) \<in> sem b"
    "c = (if c2 = None then c1 else c2)" unfolding in_sem_Seq by blast
  from nogroup_sem[OF assms(2) h(2)] have c1: "c1 = None" .
  with h(4) have "c = c2" by (cases c2) simp_all
  with h(1,2,3) c1 have "w = u @ v" "(u, None) \<in> sem a" "(v, c) \<in> sem b" by simp_all
  then show thesis by (rule that)
qed

lemma sem_Seq_LitE:
  assumes "(w, c) \<in> sem (Seq (Lit l) b)"
  obtains v where "w = l @ v" "(v, c) \<in> sem b"
  using assms by (elim sem_Seq_plainE) (simp_all add: in_sem_Lit)

lemma sem_Seq_ClsE:
  assumes "(w, c) \<in> sem (Seq (Cls P) b)"
  obtains d v where "w = [d] @ v" "P d" "(v, c) \<in> sem b"
proof -
  from assms obtain u v where "w = u @ v" "(u, None) \<in> sem (Cls P)" "(v, c) \<in> sem b"
    by (elim sem_Seq_plainE) simp_all
  then show thesis using that unfolding in_sem_Cls by blast
qed

lemma sem_Seq_PlusE:
  assumes "(w, c) \<in> sem (Seq (Plus P) b)"
  obtains u v where "w = u @ v" "u \<noteq> []" "list_all P u" "(v, c) \<in> sem b"
proof -
  from assms obtain u v where "w = u @ v" "(u, None) \<in> sem (Plus P)" "(v, c) \<in> sem b"
    by (elim sem_Seq_plainE) simp_all
  then show thesis using that unfolding in_sem_Plus by blast
qed

lemma sem_Seq_StarE:
  assumes "(w, c) \<in> sem (Seq (Star P) b)"
  obtains u v where "w = u @ v" "list_all P u" "(v, c) \<in> sem b"
proof -
  from assms obtain u v where "w = u @ v" "(u, None) \<in> sem (Star P)" "(v, c) \<in> sem b"
    by (elim sem_Seq_plainE) simp_all
  then show thesis using that unfolding in_sem_Star by blast
qed

lemma sem_LitE:
  assumes "(w, c) \<in> sem (Lit l)"
  obtains "w = l" "c = None"
  using assms by (simp add: in_sem_Lit)

lemma sem_ClsE:
  assumes "(w, c) \<in> sem (Cls P)"
  obtains d where "w = [d]" "P d" "c = None"
  using assms unfolding in_sem_Cls by blast

lemmas sem_elims = sem_Seq_LitE sem_Seq_ClsE sem_Seq_PlusE sem_Seq_StarE sem_LitE sem_ClsE

lemma sem_batchStart: "(w, c) \<in> sem batchStart \<longleftrightarrow> c = None \<and> boundary_open w"
proof
  assume "(w, c) \<in> sem batchStart"
  then show "c = None \<and> boundary_open w"
    unfolding batchStart_def boundary_open_def
    by (elim sem_elims) blast
next
  assume "c = None \<and> boundary_open w"
  then obtain u d where h: "c = None" "w = ''--batchresponse_'' @ u @ [d]" "u \<noteq> []"
    "list_all is_hexdash u" "is_space d"
    unfolding boundary_open_def by blast
  show "(w, c) \<in> sem batchStart"
    unfolding batchStart_def h(1,2)
    by (intro sem_app sem_LitI sem_ClsI sem_PlusI h)
qed

lemma sem_httpStatus: "(w, c) \<in> sem httpStatus \<longleftrightarrow> c = None \<and> status_line w"
proof
  assume "(w, c) \<in> sem httpStatus"
  then show "c = None \<and> status_line w"
    unfolding httpStatus_def status_line_def
    by (elim sem_elims) blast
next
  assume "c = None \<and> status_line w"
  then obtain a b c' n d r e where h: "c = None"
    "w = ''HTTP/'' @ [a] @ ''.'' @ [b] @ [c'] @ n @ [d] @ r @ [e]"
    "is_digit a" "is_digit b" "is_space c'" "n \<noteq> []" "list_all is_digit n"
    "is_space d" "r \<noteq> []" "list_all is_statusch r" "is_space e"
    unfolding status_line_def by blast
  show "(w, c) \<in> sem httpStatus"
    unfolding httpStatus_def h(1,2)
    by (intro sem_app sem_LitI sem_ClsI sem_PlusI h)
qed

lemma sem_headers: "(w, c) \<in> sem headers \<longleftrightarrow> c = None \<and> header_lines w"
proof
  assume "(w, c) \<in> sem headers"
  then have "(w, c) \<in> sem (Seq (Seq (Plus is_headerch) (Cls is_space)) (Cls is_space))"
    unfolding headers_def .
  then obtain x v where 1: "w = x @ v" "(x, None) \<in> sem (Seq (Plus is_headerch) (Cls is_space))"
    "(v, c) \<in> sem (Cls is_space)"
    by (rule sem_Seq_plainE) simp_all
  from 1(3) obtain e where e: "v = [e]" "is_space e" "c = None" by (elim sem_ClsE)
  from 1(2) obtain u d where u: "x = u @ [d]" "u \<noteq> []" "list_all is_headerch u" "is_space d"
    by (elim sem_elims) simp
  from 1(1) e(1) u(1) have "w = u @ [d, e]" by simp
  with e u show "c = None \<and> header_lines w"
    unfolding header_lines_def by blast
next
  assume "c = None \<and> header_lines w"
  then obtain u d e where h: "c = None" "w = u @ [d, e]" "u \<noteq> []"
    "list_all is_headerch u" "is_space d" "is_space e"
    unfolding header_lines_def by blast
  have "((u @ [d]) @ [e], None) \<in> sem headers"
    unfolding headers_def
    by (intro sem_app sem_ClsI sem_PlusI h)
  with h(1,2) show "(w, c) \<in> sem headers" by simp
qed

lemma sem_jsonBlob: "(w, c) \<in> sem jsonBlob \<longleftrightarrow> c = None \<and> json_blob w"
proof
  assume "(w, c) \<in> sem jsonBlob"
  then show "c = None \<and> json_blob w"
    unfolding jsonBlob_def json_blob_def
    by (elim sem_elims) blast
next
  assume "c = None \<and> json_blob w"
  then obtain m where h: "c = None" "w = ''{'' @ m @ ''}''" "list_all is_dot m"
    unfolding json_blob_def by blast
  show "(w, c) \<in> sem jsonBlob"
    unfolding jsonBlob_def h(1,2)
    by (intro sem_app sem_LitI sem_StarI h)
qed

lemma sem_batchEnd: "(w, c) \<in> sem batchEnd \<longleftrightarrow> c = None \<and> boundary_close w"
proof
  assume "(w, c) \<in> sem batchEnd"
  then show "c = None \<and> boundary_close w"
    unfolding batchEnd_def boundary_close_def
    by (elim sem_elims) blast
next
  assume "c = None \<and> boundary_close w"
  then obtain u where h: "c = None" "w = ''--batchresponse_'' @ u @ ''--''" "u \<noteq> []"
    "list_all is_hexdash u"
    unfolding boundary_close_def by blast
  show "(w, c) \<in> sem batchEnd"
    unfolding batchEnd_def h(1,2)
    by (intro sem_app sem_LitI sem_PlusI h)
qed

lemma sem_jsonData:
  "(w, c) \<in> sem jsonData \<longleftrightarrow>
     (\<exists>j ws. w = j @ ws \<and> json_blob j \<and> ws \<noteq> [] \<and> list_all is_space ws \<and> c = Some j)"
proof
  assume "(w, c) \<in> sem jsonData"
  then obtain j ws c1 c2 where h: "w = j @ ws" "(j, c1) \<in> sem (Group jsonBlob)"
    "(ws, c2) \<in> sem (Plus is_space)" "c = (if c2 = None then c1 else c2)"
    unfolding jsonData_def in_sem_Seq by blast
  from h(2) have j: "json_blob j" "c1 = Some j"
    unfolding in_sem_Group sem_jsonBlob by blast+
  from h(3) have ws: "ws \<noteq> []" "list_all is_space ws" "c2 = None"
    unfolding in_sem_Plus by blast+
  from h(4) j(2) ws(3) have "c = Some j" by simp
  with h(1) j(1) ws(1,2)
  show "\<exists>j ws. w = j @ ws \<and> json_blob j \<and> ws \<noteq> [] \<and> list_all is_space ws \<and> c = Some j"
    by blast
next
  assume "\<exists>j ws. w = j @ ws \<and> json_blob j \<and> ws \<noteq> [] \<and> list_all is_space ws \<and> c = Some j"
  then obtain j ws where h: "w = j @ ws" "json_blob j" "ws \<noteq> []" "list_all is_space ws" "c = Some j"
    by blast
  from h(2) have "(j, Some j) \<in> sem (Group jsonBlob)"
    unfolding in_sem_Group sem_jsonBlob by blast
  moreover from h(3,4) have "(ws, None) \<in> sem (Plus is_space)" by (rule sem_PlusI)
  ultimately have "(j @ ws, if (None::string option) = None then Some j else None) \<in> sem jsonData"
    unfolding jsonData_def in_sem_Seq by blast
  with h(1,5) show "(w, c) \<in> sem jsonData" by simp
qed

lemma nogroup_pieces: "nogroup batchStart" "nogroup headers" "nogroup httpStatus" "nogroup batchEnd"
  by (simp_all add: batchStart_def headers_def httpStatus_def batchEnd_def)

lemma sem_regexp:
  "(w, c) \<in> sem batchResponseRegExp \<longleftrightarrow>
     (\<exists>b h1 t h2 j ws e.
        w = b @ h1 @ t @ h2 @ j @ ws @ e \<and>
        boundary_open b \<and> header_lines h1 \<and> status_line t \<and> header_lines h2 \<and>
        json_blob j \<and> ws \<noteq> [] \<and> list_all is_space ws \<and> boundary_close e \<and> c = Some j)"
proof
  assume "(w, c) \<in> sem batchResponseRegExp"
  then have "(w, c) \<in> sem (Seq batchStart (Seq headers (Seq httpStatus (Seq headers
      (Seq jsonData batchEnd)))))"
    unfolding batchResponseRegExp_def .
  then obtain b v1 where 1: "w = b @ v1" "(b, None) \<in> sem batchStart"
    "(v1, c) \<in> sem (Seq headers (Seq httpStatus (Seq headers (Seq jsonData batchEnd))))"
    by (rule sem_Seq_plainE) (rule nogroup_pieces)
  from 1(3) obtain h1 v2 where 2: "v1 = h1 @ v2" "(h1, None) \<in> sem headers"
    "(v2, c) \<in> sem (Seq httpStatus (Seq headers (Seq jsonData batchEnd)))"
    by (rule sem_Seq_plainE) (rule nogroup_pieces)
  from 2(3) obtain t v3 where 3: "v2 = t @ v3" "(t, None) \<in> sem httpStatus"
    "(v3, c) \<in> sem (Seq headers (Seq jsonData batchEnd))"
    by (rule sem_Seq_plainE) (rule nogroup_pieces)
  from 3(3) obtain h2 v4 where 4: "v3 = h2 @ v4" "(h2, None) \<in> sem headers"
    "(v4, c) \<in> sem (Seq jsonData batchEnd)"
    by (rule sem_Seq_plainE) (rule nogroup_pieces)
  from 4(3) obtain x e c1 c2 where 5: "v4 = x @ e" "(x, c1) \<in> sem jsonData" "(e, c2) \<in> sem batchEnd"
    "c = (if c2 = None then c1 else c2)"
    unfolding in_sem_Seq by blast
  from 5(3) have e: "c2 = None" "boundary_close e" unfolding sem_batchEnd by blast+
  from 5(2) obtain j ws where 6: "x = j @ ws" "json_blob j" "ws \<noteq> []" "list_all is_space ws"
    "c1 = Some j" unfolding sem_jsonData by blast
  from 1(1) 2(1) 3(1) 4(1) 5(1) 6(1) have "w = b @ h1 @ t @ h2 @ j @ ws @ e" by simp
  moreover from 5(4) e(1) 6(5) have "c = Some j" by simp
  moreover from 1(2) have "boundary_open b" unfolding sem_batchStart by blast
  moreover from 2(2) 4(2) have "header_lines h1" "header_lines h2" unfolding sem_headers by blast+
  moreover from 3(2) have "status_line t" unfolding sem_httpStatus by blast
  ultimately show "\<exists>b h1 t h2 j ws e.
        w = b @ h1 @ t @ h2 @ j @ ws @ e \<and>
        boundary_open b \<and> header_lines h1 \<and> status_line t \<and> header_lines h2 \<and>
        json_blob j \<and> ws \<noteq> [] \<and> list_all is_space ws \<and> boundary_close e \<and> c = Some j"
    using 6(2,3,4) e(2) by blast
next
  assume "\<exists>b h1 t h2 j ws e.
        w = b @ h1 @ t @ h2 @ j @ ws @ e \<and>
        boundary_open b \<and> header_lines h1 \<and> status_line t \<and> header_lines h2 \<and>
        json_blob j \<and> ws \<noteq> [] \<and> list_all is_space ws \<and> boundary_close e \<and> c = Some j"
  then obtain b h1 t h2 j ws e where h: "w = b @ h1 @ t @ h2 @ j @ ws @ e"
    "boundary_open b" "header_lines h1" "status_line t" "header_lines h2"
    "json_blob j" "ws \<noteq> []" "list_all is_space ws" "boundary_close e" "c = Some j"
    by blast
  have jd: "(j @ ws, Some j) \<in> sem jsonData"
    unfolding sem_jsonData using h(6,7,8) by blast
  have be: "(e, None) \<in> sem batchEnd" unfolding sem_batchEnd using h(9) by simp
  from jd be have "((j @ ws) @ e, if (None::string option) = None then Some j else None)
      \<in> sem (Seq jsonData batchEnd)"
    unfolding in_sem_Seq by blast
  then have 5: "(j @ ws @ e, Some j) \<in> sem (Seq jsonData batchEnd)" by simp
  have pre: "(u @ v, Some j) \<in> sem (Seq a r)" if "(u, None) \<in> sem a" "(v, Some j) \<in> sem r"
    for u v a r
  proof -
    from that have "(u @ v, if Some j = None then None else Some j) \<in> sem (Seq a r)"
      unfolding in_sem_Seq by blast
    then show ?thesis by simp
  qed
  have hh: "(h1, None) \<in> sem headers" "(h2, None) \<in> sem headers"
    unfolding sem_headers using h(3,5) by simp_all
  have tt: "(t, None) \<in> sem httpStatus" unfolding sem_httpStatus using h(4) by simp
  have bb: "(b, None) \<in> sem batchStart" unfolding sem_batchStart using h(2) by simp
  have "(b @ h1 @ t @ h2 @ j @ ws @ e, Some j) \<in> sem batchResponseRegExp"
    unfolding batchResponseRegExp_def
    by (intro pre bb hh tt 5)
  with h(1,10) show "(w, c) \<in> sem batchResponseRegExp" by simp
qed

lemma rmatch_hd_sem:
  "rmatch re s = m # ms \<Longrightarrow> \<exists>w t. s = w @ t \<and> (w, fst m) \<in> sem re"
proof -
  assume "rmatch re s = m # ms"
  then have "(fst m, snd m) \<in> set (rmatch re s)" by simp
  then show ?thesis unfolding rmatch_sem by blast
qed

lemma js_match_Some:
  "js_match re s = Some c \<Longrightarrow> \<exists>pre w t. s = pre @ w @ t \<and> (w, c) \<in> sem re"
proof (induction s)
  case Nil
  then obtain m ms where "rmatch re [] = m # ms" "c = fst m"
    by (auto split: list.splits)
  with rmatch_hd_sem[of re "[]" m ms] show ?case by (metis append_Nil)
next
  case (Cons x xs)
  show ?case
  proof (cases "rmatch re (x # xs)")
    case Nil
    with Cons.prems have "js_match re xs = Some c" by simp
    from Cons.IH[OF this] obtain pre w t where "xs = pre @ w @ t" "(w, c) \<in> sem re" by blast
    then have "x # xs = (x # pre) @ w @ t \<and> (w, c) \<in> sem re" by simp
    then show ?thesis by blast
  next
    case (Cons m ms)
    with Cons.prems have "c = fst m" by simp
    with rmatch_hd_sem[OF Cons] show ?thesis by (metis append_Nil)
  qed
qed

lemma js_match_None:
  "js_match re s = None \<Longrightarrow> s = pre @ w @ t \<Longrightarrow> (w, c) \<notin> sem re"
proof (induction s arbitrary: pre)
  case Nil
  then have e: "rmatch re [] = []" by (auto split: list.splits)
  from Nil.prems(2) have "w = []" "t = []" by simp_all
  show ?case
  proof
    assume "(w, c) \<in> sem re"
    with \<open>w = []\<close> \<open>t = []\<close> have "(c, []) \<in> set (rmatch re [])" unfolding rmatch_sem by simp
    with e show False by simp
  qed
next
  case (Cons x xs)
  from Cons.prems(1) have e: "rmatch re (x # xs) = []" and n: "js_match re xs = None"
    by (auto split: list.splits)
  show ?case
  proof (cases pre)
    case Nil
    show ?thesis
    proof
      assume "(w, c) \<in> sem re"
      with Nil Cons.prems(2) have "(c, t) \<in> set (rmatch re (x # xs))" unfolding rmatch_sem by auto
      with e show False by simp
    qed
  next
    case (Cons y ys)
    with Cons.prems(2) have "xs = ys @ w @ t" by simp
    from Cons.IH[OF n this] show ?thesis .
  qed
qed

lemma batch_template_sem:
  "batch_template pre j post body \<longleftrightarrow>
     (\<exists>w. body = pre @ w @ post \<and> (w, Some j) \<in> sem batchResponseRegExp)"
proof
  assume "batch_template pre j post body"
  then obtain b h1 t h2 ws e where h: "body = pre @ b @ h1 @ t @ h2 @ j @ ws @ e @ post"
    "boundary_open b" "header_lines h1" "status_line t" "header_lines h2"
    "json_blob j" "ws \<noteq> []" "list_all is_space ws" "boundary_close e"
    unfolding batch_template_def by blast
  then have "(b @ h1 @ t @ h2 @ j @ ws @ e, Some j) \<in> sem batchResponseRegExp"
    unfolding sem_regexp by blast
  moreover from h(1) have "body = pre @ (b @ h1 @ t @ h2 @ j @ ws @ e) @ post" by simp
  ultimately show "\<exists>w. body = pre @ w @ post \<and> (w, Some j) \<in> sem batchResponseRegExp" by blast
next
  assume "\<exists>w. body = pre @ w @ post \<and> (w, Some j) \<in> sem batchResponseRegExp"
  then obtain w where w: "body = pre @ w @ post" "(w, Some j) \<in> sem batchResponseRegExp" by blast
  from w(2) obtain b h1 t h2 j' ws e where h: "w = b @ h1 @ t @ h2 @ j' @ ws @ e"
    "boundary_open b" "header_lines h1" "status_line t" "header_lines h2"
    "json_blob j'" "ws \<noteq> []" "list_all is_space ws" "boundary_close e" "Some j = Some j'"
    unfolding sem_regexp by blast
  from w(1) h(1,10) have "body = pre @ b @ h1 @ t @ h2 @ j @ ws @ e @ post" by simp
  with h show "batch_template pre j post body" unfolding batch_template_def by blast
qed

lemma extractBatchData_sound:
  "extractBatchData body = Some j \<Longrightarrow> \<exists>pre post. batch_template pre j post body"
proof -
  assume "extractBatchData body = Some j"
  then have "js_match batchResponseRegExp body = Some (Some j)"
    by (auto simp: extractBatchData_def split: option.splits)
  from js_match_Some[OF this] show ?thesis unfolding batch_template_sem by blast
qed

lemma extractBatchData_None:
  "extractBatchData body = None \<longleftrightarrow> \<not> (\<exists>pre j post. batch_template pre j post body)"
proof
  assume n: "extractBatchData body = None"
  show "\<not> (\<exists>pre j post. batch_template pre j post body)"
  proof
    assume "\<exists>pre j post. batch_template pre j post body"
    then obtain pre j post w where w: "body = pre @ w @ post" "(w, Some j) \<in> sem batchResponseRegExp"
      unfolding batch_template_sem by blast
    show False
    proof (cases "js_match batchResponseRegExp body")
      case None
      from js_match_None[OF None w(1)] w(2) show False by blast
    next
      case (Some c)
      with n have "c = None" by (simp add: extractBatchData_def)
      with Some js_match_Some[of batchResponseRegExp body None]
      obtain w' where "(w', None) \<in> sem batchResponseRegExp" by blast
      then show False unfolding sem_regexp by blast
    qed
  qed
next
  assume "\<not> (\<exists>pre j post. batch_template pre j post body)"
  then show "extractBatchData body = None"
    using extractBatchData_sound[of body] by (cases "extractBatchData body") auto
qed

lemma comb_None: "(if c = None then None else c) = c"
  by simp

lemma nogroup_rmatch: "nogroup a \<Longrightarrow> rmatch a s = map (Pair None) (rests a s)"
proof -
  assume ng: "nogroup a"
  have "\<forall>m\<in>set (rmatch a s). fst m = None"
  proof
    fix m assume "m \<in> set (rmatch a s)"
    then have "(fst m, snd m) \<in> set (rmatch a s)" by simp
    then obtain w where "(w, fst m) \<in> sem a" unfolding rmatch_sem by blast
    with ng show "fst m = None" by (rule nogroup_sem)
  qed
  then have "map (\<lambda>m. (None, snd m)) (rmatch a s) = map (\<lambda>m. m) (rmatch a s)"
    by (intro map_cong refl) (auto simp: prod_eq_iff)
  then show ?thesis by (simp add: rests_def comp_def)
qed

lemma rmatch_Seq_nogroup:
  assumes "nogroup a"
  shows "rmatch (Seq a b) s = concat (map (rmatch b) (rests a s))"
proof -
  have "rmatch (Seq a b) s =
        concat (map (\<lambda>(c1, r1). map (\<lambda>(c2, r2). (if c2 = None then c1 else c2, r2)) (rmatch b r1))
                 (map (Pair None) (rests a s)))"
    using nogroup_rmatch[OF assms, of s] by simp
  also have "\<dots> = concat (map (\<lambda>r1. map (\<lambda>(c2, r2). (c2, r2)) (rmatch b r1)) (rests a s))"
    by (simp add: comp_def comb_None)
  finally show ?thesis by simp
qed

lemma rests_Seq: "rests (Seq a b) s = concat (map (rests b) (rests a s))"
  by (simp add: rests_def map_concat comp_def case_prod_beta)

lemma concat_map_concat: "concat (map f (concat xss)) = concat (map (\<lambda>xs. concat (map f xs)) xss)"
  by (induction xss) simp_all

lemma rmatch_Seq_assoc:
  assumes "nogroup a" "nogroup b"
  shows "rmatch (Seq a (Seq b c)) s = rmatch (Seq (Seq a b) c) s"
proof -
  have ab: "nogroup (Seq a b)" using assms by simp
  have bc: "rmatch (Seq b c) = (\<lambda>r. concat (map (rmatch c) (rests b r)))"
    by (rule ext) (rule rmatch_Seq_nogroup[OF assms(2)])
  have "rmatch (Seq a (Seq b c)) s = concat (map (\<lambda>r. concat (map (rmatch c) (rests b r))) (rests a s))"
    by (simp only: rmatch_Seq_nogroup[OF assms(1)] bc)
  also have "\<dots> = concat (map (rmatch c) (rests (Seq a b) s))"
    by (simp add: rests_Seq concat_map_concat comp_def)
  also have "\<dots> = rmatch (Seq (Seq a b) c) s"
    by (simp only: rmatch_Seq_nogroup[OF ab])
  finally show ?thesis .
qed

lemma rmatch_Seq_cong:
  "(\<And>t. rmatch b t = rmatch b' t) \<Longrightarrow> rmatch (Seq a b) s = rmatch (Seq a b') s"
  by simp

lemma nogroup_batchPrefix: "nogroup batchPrefix"
  by (simp add: batchPrefix_def nogroup_pieces)

lemma rmatch_regexp_split:
  "rmatch batchResponseRegExp s = concat (map (rmatch batchTail) (rests batchPrefix s))"
proof -
  have 1: "rmatch (Seq headers (Seq jsonData batchEnd)) t =
           rmatch (Seq headers batchTail) t" for t
    by (simp add: batchTail_def)
  have 2: "rmatch (Seq httpStatus (Seq headers batchTail)) t =
           rmatch (Seq (Seq httpStatus headers) batchTail) t" for t
    by (rule rmatch_Seq_assoc) (rule nogroup_pieces)+
  have 3: "rmatch (Seq headers (Seq httpStatus (Seq headers batchTail))) t =
           rmatch (Seq (Seq headers (Seq httpStatus headers)) batchTail) t" for t
  proof -
    have "rmatch (Seq headers (Seq httpStatus (Seq headers batchTail))) t =
          rmatch (Seq headers (Seq (Seq httpStatus headers) batchTail)) t"
      by (rule rmatch_Seq_cong) (rule 2)
    also have "\<dots> = rmatch (Seq (Seq headers (Seq httpStatus headers)) batchTail) t"
      by (rule rmatch_Seq_assoc) (simp_all add: nogroup_pieces)
    finally show ?thesis .
  qed
  have "rmatch batchResponseRegExp s =
        rmatch (Seq batchStart (Seq headers (Seq httpStatus (Seq headers batchTail)))) s"
    by (simp add: batchResponseRegExp_def batchTail_def)
  also have "\<dots> = rmatch (Seq batchStart (Seq (Seq headers (Seq httpStatus headers)) batchTail)) s"
    by (rule rmatch_Seq_cong) (rule 3)
  also have "\<dots> = rmatch (Seq batchPrefix batchTail) s"
    unfolding batchPrefix_def
    by (rule rmatch_Seq_assoc) (simp_all add: nogroup_pieces)
  also have "\<dots> = concat (map (rmatch batchTail) (rests batchPrefix s))"
    by (rule rmatch_Seq_nogroup[OF nogroup_batchPrefix])
  finally show ?thesis .
qed

lemma brace_classes:
  "\<not> is_space CHR ''{''" "\<not> is_space CHR ''}''"
  "\<not> is_digit CHR ''{''" "\<not> is_digit CHR ''}''"
  "\<not> is_hexdash CHR ''{''" "\<not> is_hexdash CHR ''}''"
  "\<not> is_headerch CHR ''{''" "\<not> is_headerch CHR ''}''"
  "\<not> is_statusch CHR ''{''" "\<not> is_statusch CHR ''}''"
  "is_dot CHR ''}''"
  by (simp_all add: is_space_def is_digit_def is_word_def is_hexdash_def is_headerch_def
      is_statusch_def is_dot_def)

lemma list_all_notin: "list_all P u \<Longrightarrow> \<not> P x \<Longrightarrow> x \<notin> set u"
  by (auto simp: list_all_iff)

lemma boundary_open_no_brace: "boundary_open b \<Longrightarrow> CHR ''{'' \<notin> set b"
proof -
  assume "boundary_open b"
  then obtain u c where h: "b = ''--batchresponse_'' @ u @ [c]" "list_all is_hexdash u" "is_space c"
    unfolding boundary_open_def by blast
  from h(2) have "CHR ''{'' \<notin> set u" by (rule list_all_notin) (rule brace_classes)
  moreover from h(3) have "c \<noteq> CHR ''{''" using brace_classes(1) by blast
  ultimately show ?thesis unfolding h(1) by simp
qed

lemma header_lines_no_brace: "header_lines h \<Longrightarrow> CHR ''{'' \<notin> set h"
proof -
  assume "header_lines h"
  then obtain u c d where h: "h = u @ [c, d]" "list_all is_headerch u" "is_space c" "is_space d"
    unfolding header_lines_def by blast
  from h(2) have "CHR ''{'' \<notin> set u" by (rule list_all_notin) (rule brace_classes)
  moreover from h(3,4) have "c \<noteq> CHR ''{''" "d \<noteq> CHR ''{''" using brace_classes(1) by blast+
  ultimately show ?thesis unfolding h(1) by simp
qed

lemma status_line_no_brace: "status_line t \<Longrightarrow> CHR ''{'' \<notin> set t"
proof -
  assume "status_line t"
  then obtain a b c n d r e where h:
    "t = ''HTTP/'' @ [a] @ ''.'' @ [b] @ [c] @ n @ [d] @ r @ [e]"
    "is_digit a" "is_digit b" "is_space c" "list_all is_digit n"
    "is_space d" "list_all is_statusch r" "is_space e"
    unfolding status_line_def by blast
  from h(5) have "CHR ''{'' \<notin> set n" by (rule list_all_notin) (rule brace_classes)
  moreover from h(7) have "CHR ''{'' \<notin> set r" by (rule list_all_notin) (rule brace_classes)
  moreover from h(2,3) have "a \<noteq> CHR ''{''" "b \<noteq> CHR ''{''" using brace_classes(3) by blast+
  moreover from h(4,6,8) have "c \<noteq> CHR ''{''" "d \<noteq> CHR ''{''" "e \<noteq> CHR ''{''"
    using brace_classes(1) by blast+
  ultimately show ?thesis unfolding h(1) by simp
qed

lemma boundary_close_no_brace: "boundary_close e \<Longrightarrow> CHR ''}'' \<notin> set e"
proof -
  assume "boundary_close e"
  then obtain u where h: "e = ''--batchresponse_'' @ u @ ''--''" "list_all is_hexdash u"
    unfolding boundary_close_def by blast
  from h(2) have "CHR ''}'' \<notin> set u" by (rule list_all_notin) (rule brace_classes)
  then show ?thesis unfolding h(1) by simp
qed

lemma spaces_no_brace: "list_all is_space ws \<Longrightarrow> CHR ''}'' \<notin> set ws"
  using list_all_notin[of is_space ws "CHR ''}''"] brace_classes(2) by blast

lemma sem_batchPrefix:
  "(w, c) \<in> sem batchPrefix \<longleftrightarrow>
     c = None \<and> (\<exists>b h1 t h2. w = b @ h1 @ t @ h2 \<and>
        boundary_open b \<and> header_lines h1 \<and> status_line t \<and> header_lines h2)"
proof
  assume a: "(w, c) \<in> sem batchPrefix"
  then have "(w, c) \<in> sem (Seq batchStart (Seq headers (Seq httpStatus headers)))"
    unfolding batchPrefix_def .
  then obtain b v1 where 1: "w = b @ v1" "(b, None) \<in> sem batchStart"
    "(v1, c) \<in> sem (Seq headers (Seq httpStatus headers))"
    by (rule sem_Seq_plainE) (rule nogroup_pieces)
  from 1(3) obtain h1 v2 where 2: "v1 = h1 @ v2" "(h1, None) \<in> sem headers"
    "(v2, c) \<in> sem (Seq httpStatus headers)"
    by (rule sem_Seq_plainE) (rule nogroup_pieces)
  from 2(3) obtain t h2 where 3: "v2 = t @ h2" "(t, None) \<in> sem httpStatus"
    "(h2, c) \<in> sem headers"
    by (rule sem_Seq_plainE) (rule nogroup_pieces)
  from 1(1) 2(1) 3(1) have "w = b @ h1 @ t @ h2" by simp
  moreover from 3(3) have "c = None" "header_lines h2" unfolding sem_headers by blast+
  moreover from 1(2) have "boundary_open b" unfolding sem_batchStart by blast
  moreover from 2(2) have "header_lines h1" unfolding sem_headers by blast
  moreover from 3(2) have "status_line t" unfolding sem_httpStatus by blast
  ultimately show "c = None \<and> (\<exists>b h1 t h2. w = b @ h1 @ t @ h2 \<and>
        boundary_open b \<and> header_lines h1 \<and> status_line t \<and> header_lines h2)" by blast
next
  assume "c = None \<and> (\<exists>b h1 t h2. w = b @ h1 @ t @ h2 \<and>
        boundary_open b \<and> header_lines h1 \<and> status_line t \<and> header_lines h2)"
  then obtain b h1 t h2 where h: "c = None" "w = b @ h1 @ t @ h2"
    "boundary_open b" "header_lines h1" "status_line t" "header_lines h2" by blast
  have "(b, None) \<in> sem batchStart" "(h1, None) \<in> sem headers" "(t, None) \<in> sem httpStatus"
    "(h2, None) \<in> sem headers"
    unfolding sem_batchStart sem_headers sem_httpStatus using h by simp_all
  then show "(w, c) \<in> sem batchPrefix"
    unfolding batchPrefix_def h(1,2) by (intro sem_app)
qed

lemma batchPrefix_no_brace: "(w, c) \<in> sem batchPrefix \<Longrightarrow> CHR ''{'' \<notin> set w"
  unfolding sem_batchPrefix
  using boundary_open_no_brace header_lines_no_brace status_line_no_brace by auto

lemma greedy_append:
  "list_all P m \<Longrightarrow> \<exists>ys. greedy P (m @ t) @ [m @ t] = (greedy P t @ [t]) @ ys"
proof (induction m)
  case Nil
  then show ?case by simp
next
  case (Cons c m)
  then obtain ys where "greedy P (m @ t) @ [m @ t] = (greedy P t @ [t]) @ ys" by auto
  with Cons.prems have "greedy P ((c # m) @ t) @ [(c # m) @ t] =
      (greedy P t @ [t]) @ (ys @ [(c # m) @ t])" by simp
  then show ?case by blast
qed

lemma greedy_rest_suffix:
  assumes "x \<in> set (greedy P s @ [s])"
  shows "set x \<subseteq> set s"
proof -
  from assms consider "x = s" | "x \<in> set (greedy P s)" by auto
  then show ?thesis
  proof cases
    case 1 then show ?thesis by simp
  next
    case 2
    then obtain w where "s = w @ x" unfolding greedy_set by blast
    then show ?thesis by auto
  qed
qed

lemma close_fails:
  assumes "CHR ''}'' \<notin> set s" and "x \<in> set (greedy P s @ [s])"
  shows "rmatch (Lit ''}'') x = []"
proof -
  from greedy_rest_suffix[OF assms(2)] assms(1) have "CHR ''}'' \<notin> set x" by blast
  then show ?thesis by (cases x) auto
qed

lemma concat_map_skip:
  "\<forall>x\<in>set xs. f x = [] \<Longrightarrow> concat (map f (xs @ ys)) = concat (map f ys)"
  by (induction xs) simp_all

lemma rests_Lit: "rests (Lit l) (l @ t) = [t]"
  by (simp add: rests_def)

lemma rests_Star: "rests (Star P) s = greedy P s @ [s]"
  by (simp add: rests_def comp_def)

lemma rests_Plus: "rests (Plus P) s = greedy P s"
  by (simp add: rests_def comp_def)

lemma rmatch_jsonBlob_first:
  assumes "list_all is_dot m" and "CHR ''}'' \<notin> set rest0"
  shows "\<exists>zs. rmatch jsonBlob (''{'' @ m @ ''}'' @ rest0) = (None, rest0) # zs"
proof -
  let ?t = "''}'' @ rest0"
  let ?close = "Lit ''}''"
  have 1: "rmatch jsonBlob (''{'' @ m @ ?t) = rmatch (Seq (Star is_dot) ?close) (m @ ?t)"
    unfolding jsonBlob_def
    by (subst rmatch_Seq_nogroup) (simp_all only: nogroup.simps rests_Lit list.map concat.simps append_Nil2)
  have 2: "rmatch (Seq (Star is_dot) ?close) (m @ ?t) =
           concat (map (rmatch ?close) (greedy is_dot (m @ ?t) @ [m @ ?t]))"
    by (subst rmatch_Seq_nogroup) (simp_all only: nogroup.simps rests_Star)
  from greedy_append[OF assms(1), of ?t] obtain ys where
    3: "greedy is_dot (m @ ?t) @ [m @ ?t] = (greedy is_dot ?t @ [?t]) @ ys" by blast
  have 4: "greedy is_dot ?t @ [?t] = (greedy is_dot rest0 @ [rest0]) @ [?t]"
    by (simp add: brace_classes)
  have 5: "\<forall>x\<in>set (greedy is_dot rest0 @ [rest0]). rmatch ?close x = []"
    using close_fails[OF assms(2)] by blast
  have "concat (map (rmatch ?close) (greedy is_dot (m @ ?t) @ [m @ ?t])) =
        concat (map (rmatch ?close) ((greedy is_dot rest0 @ [rest0]) @ ([?t] @ ys)))"
    unfolding 3 4 by simp
  also have "\<dots> = concat (map (rmatch ?close) ([?t] @ ys))"
    by (rule concat_map_skip[OF 5])
  also have "\<dots> = (None, rest0) # concat (map (rmatch ?close) ys)"
    by simp
  finally show ?thesis unfolding 1 2 by blast
qed

lemma hd_concat_block:
  assumes "\<exists>x\<in>set xs. f x \<noteq> []" and "\<forall>x\<in>set xs. \<forall>y\<in>set (f x). P y"
  shows "concat (map f (xs @ ys)) \<noteq> [] \<and> P (hd (concat (map f (xs @ ys))))"
proof -
  let ?A = "concat (map f xs)"
  from assms(1) have ne: "?A \<noteq> []" by auto
  then have "hd ?A \<in> set ?A" by (rule hd_in_set)
  then obtain x where "x \<in> set xs" "hd ?A \<in> set (f x)" by auto
  with assms(2) have "P (hd ?A)" by blast
  moreover have "concat (map f (xs @ ys)) = ?A @ concat (map f ys)" by simp
  ultimately show ?thesis using ne by simp
qed

lemma rmatch_Seq:
  "rmatch (Seq a b) s =
     concat (map (\<lambda>(c1, r1). map (\<lambda>(c2, r2). (if c2 = None then c1 else c2, r2)) (rmatch b r1))
                 (rmatch a s))"
  by simp

lemma batchTail_first:
  assumes j: "json_blob j" and ws: "ws \<noteq> []" "list_all is_space ws"
      and e: "boundary_close e" and post: "CHR ''}'' \<notin> set post"
  shows "rmatch batchTail (j @ ws @ e @ post) \<noteq> [] \<and>
         fst (hd (rmatch batchTail (j @ ws @ e @ post))) = Some j"
proof -
  let ?rest0 = "ws @ e @ post"
  from j obtain m where m: "j = ''{'' @ m @ ''}''" "list_all is_dot m"
    unfolding json_blob_def by blast
  have nb: "CHR ''}'' \<notin> set ?rest0"
    using spaces_no_brace[OF ws(2)] boundary_close_no_brace[OF e] post by simp
  from rmatch_jsonBlob_first[OF m(2) nb] obtain zs where
    zs: "rmatch jsonBlob (j @ ?rest0) = (None, ?rest0) # zs" unfolding m(1) by auto
  obtain zs1 where g: "rmatch (Group jsonBlob) (j @ ?rest0) = (Some j, ?rest0) # zs1"
    using zs by simp
  let ?F' = "\<lambda>(c1, r1). map (\<lambda>(c2, r2). (if c2 = None then c1 else c2, r2)) (rmatch (Plus is_space) r1)"
  let ?F = "\<lambda>(c1, r1). map (\<lambda>(c2, r2). (if c2 = None then c1 else c2, r2)) (rmatch batchEnd r1)"
  let ?B1 = "map (Pair (Some j)) (greedy is_space ?rest0)"
  have "rmatch jsonData (j @ ?rest0) = concat (map ?F' (rmatch (Group jsonBlob) (j @ ?rest0)))"
    unfolding jsonData_def by (rule rmatch_Seq)
  also have "\<dots> = ?F' (Some j, ?rest0) @ concat (map ?F' zs1)"
    unfolding g by simp
  also have "?F' (Some j, ?rest0) = ?B1"
    by (simp add: comp_def)
  finally have jd: "rmatch jsonData (j @ ?rest0) = ?B1 @ concat (map ?F' zs1)" .
  have "rmatch batchTail (j @ ?rest0) = concat (map ?F (rmatch jsonData (j @ ?rest0)))"
    unfolding batchTail_def by (rule rmatch_Seq)
  then have bt: "rmatch batchTail (j @ ?rest0) = concat (map ?F (?B1 @ concat (map ?F' zs1)))"
    unfolding jd .
  have ex: "\<exists>x\<in>set ?B1. ?F x \<noteq> []"
  proof -
    have "e @ post \<in> set (greedy is_space ?rest0)"
      unfolding greedy_set using ws by blast
    then have "(Some j, e @ post) \<in> set ?B1" by simp
    moreover have "(None, post) \<in> set (rmatch batchEnd (e @ post))"
      unfolding rmatch_sem using e sem_batchEnd by auto
    then have "rmatch batchEnd (e @ post) \<noteq> []" by auto
    then have "?F (Some j, e @ post) \<noteq> []" by simp
    ultimately show ?thesis by blast
  qed
  have all: "\<forall>x\<in>set ?B1. \<forall>y\<in>set (?F x). fst y = Some j"
  proof (intro ballI)
    fix x y assume x: "x \<in> set ?B1" and y: "y \<in> set (?F x)"
    from x obtain r1 where r1: "x = (Some j, r1)" by auto
    with y obtain c2 r2 where c2: "(c2, r2) \<in> set (rmatch batchEnd r1)"
      "y = (if c2 = None then Some j else c2, r2)" by auto
    from c2(1) have "c2 = None"
      unfolding nogroup_rmatch[OF nogroup_pieces(4)] by auto
    with c2(2) show "fst y = Some j" by simp
  qed
  from hd_concat_block[of ?B1 ?F "\<lambda>y. fst y = Some j", OF ex all]
  show ?thesis unfolding bt by blast
qed

lemma sem_batchTail:
  "(w, c) \<in> sem batchTail \<Longrightarrow> \<exists>w'. w = CHR ''{'' # w'"
proof -
  assume "(w, c) \<in> sem batchTail"
  then obtain x e c1 c2 where h: "w = x @ e" "(x, c1) \<in> sem jsonData"
    unfolding batchTail_def in_sem_Seq by blast
  from h(2) obtain j ws where "x = j @ ws" "json_blob j" unfolding sem_jsonData by blast
  with h(1) show ?thesis unfolding json_blob_def by auto
qed

lemma batchTail_needs_brace:
  assumes "rmatch batchTail r \<noteq> []"
  shows "\<exists>r'. r = CHR ''{'' # r'"
proof -
  from assms obtain c t where "(c, t) \<in> set (rmatch batchTail r)"
    by (cases "rmatch batchTail r") auto
  then obtain w where "r = w @ t" "(w, c) \<in> sem batchTail" unfolding rmatch_sem by blast
  with sem_batchTail[of w c] show ?thesis by auto
qed

lemma split_at_first_brace:
  assumes "Y @ CHR ''{'' # rest = w @ CHR ''{'' # r'"
      and "CHR ''{'' \<notin> set Y" and "CHR ''{'' \<notin> set w"
  shows "w = Y \<and> r' = rest"
  using assms
proof (induction Y arbitrary: w)
  case Nil
  then show ?case by (cases w) auto
next
  case (Cons y Y)
  then show ?case by (cases w) auto
qed

lemma concat_map_only:
  "\<forall>x\<in>set xs. f x = [] \<or> x = a \<Longrightarrow>
   concat (map f xs) = [] \<or> hd (concat (map f xs)) = hd (f a)"
proof (induction xs)
  case Nil
  then show ?case by simp
next
  case (Cons x xs)
  show ?case
  proof (cases "f x = []")
    case True
    with Cons show ?thesis by simp
  next
    case False
    with Cons.prems have "x = a" by simp
    with False show ?thesis by simp
  qed
qed

lemma regexp_at:
  assumes Y: "CHR ''{'' \<notin> set Y"
      and j: "json_blob j" and ws: "ws \<noteq> []" "list_all is_space ws"
      and e: "boundary_close e" and post: "CHR ''}'' \<notin> set post"
  shows "rmatch batchResponseRegExp (Y @ j @ ws @ e @ post) = [] \<or>
         fst (hd (rmatch batchResponseRegExp (Y @ j @ ws @ e @ post))) = Some j"
proof -
  let ?r = "j @ ws @ e @ post"
  let ?s = "Y @ ?r"
  from j obtain rest where rest: "?r = CHR ''{'' # rest" unfolding json_blob_def by auto
  have only: "\<forall>r\<in>set (rests batchPrefix ?s). rmatch batchTail r = [] \<or> r = ?r"
  proof
    fix r assume "r \<in> set (rests batchPrefix ?s)"
    then obtain c where "(c, r) \<in> set (rmatch batchPrefix ?s)" unfolding rests_def by auto
    then obtain w where w: "?s = w @ r" "(w, c) \<in> sem batchPrefix" unfolding rmatch_sem by blast
    from batchPrefix_no_brace[OF w(2)] have nb: "CHR ''{'' \<notin> set w" .
    show "rmatch batchTail r = [] \<or> r = ?r"
    proof (cases "rmatch batchTail r = []")
      case True
      then show ?thesis by simp
    next
      case False
      from batchTail_needs_brace[OF False] obtain r' where r': "r = CHR ''{'' # r'" by blast
      from w(1) have "Y @ CHR ''{'' # rest = w @ CHR ''{'' # r'" unfolding r' rest .
      from split_at_first_brace[OF this Y nb] have "r' = rest" by simp
      with r' rest show ?thesis by simp
    qed
  qed
  from concat_map_only[OF only] batchTail_first[OF j ws e post]
  show ?thesis unfolding rmatch_regexp_split by auto
qed

lemma js_match_first:
  "rmatch re s = m # ms \<Longrightarrow> js_match re s = Some (fst m)"
  by (cases s) simp_all

lemma js_match_skip:
  "rmatch re (c # cs) = [] \<Longrightarrow> js_match re (c # cs) = js_match re cs"
  by simp

section \<open>Precedence of the annotations\<close>

text \<open>
  C10 does not hold of the code. The deciding annotation is chosen as claimed: the
  navigation-property annotation before the lookup-logical-name annotation before the
  formatted-value annotation, each later test overwriting \<open>index\<close> and \<open>suffix\<close>.
  But when the deciding annotation starts the name, its cut index 0 is falsy in
  \<open>index && suffix\<close>: the name is returned as it is, nothing is cut and no suffix is
  appended, although the comment of the function promises the normalized name for a
  name prefixed with an annotation. The theorem gives the result for every name that
  contains an annotation; its first evaluation below is a name with two annotations
  that starts with the navigation-property annotation.
\<close>

theorem getNormalizedPropertyName_precedence:
  "(str_includes p NAVIGATION_PROPERTY \<longrightarrow>
      getNormalizedPropertyName p =
        (if indexOf p NAVIGATION_PROPERTY = 0 then p
         else take (nat (indexOf p NAVIGATION_PROPERTY)) p @ ''_navigationproperty'')) \<and>
   (\<not> str_includes p NAVIGATION_PROPERTY \<and> str_includes p LOGICAL_NAME \<longrightarrow>
      getNormalizedPropertyName p =
        (if indexOf p LOGICAL_NAME = 0 then p
         else take (nat (indexOf p LOGICAL_NAME)) p @ ''_logical'')) \<and>
   (\<not> str_includes p NAVIGATION_PROPERTY \<and> \<not> str_includes p LOGICAL_NAME \<and>
    str_includes p FORMATTED_VALUE \<longrightarrow>
      getNormalizedPropertyName p =
        (if indexOf p FORMATTED_VALUE = 0 then p
         else take (nat (indexOf p FORMATTED_VALUE)) p @ ''_formatted''))"
proof (intro conjI impI)
  assume "str_includes p NAVIGATION_PROPERTY"
  then show "getNormalizedPropertyName p =
        (if indexOf p NAVIGATION_PROPERTY = 0 then p
         else take (nat (indexOf p NAVIGATION_PROPERTY)) p @ ''_navigationproperty'')"
    by (rule gnpn_nav)
next
  assume "\<not> str_includes p NAVIGATION_PROPERTY \<and> str_includes p LOGICAL_NAME"
  then show "getNormalizedPropertyName p =
        (if indexOf p LOGICAL_NAME = 0 then p
         else take (nat (indexOf p LOGICAL_NAME)) p @ ''_logical'')"
    by (simp add: gnpn_log)
next
  assume "\<not> str_includes p NAVIGATION_PROPERTY \<and> \<not> str_includes p LOGICAL_NAME \<and>
    str_includes p FORMATTED_VALUE"
  then show "getNormalizedPropertyName p =
        (if indexOf p FORMATTED_VALUE = 0 then p
         else take (nat (indexOf p FORMATTED_VALUE)) p @ ''_formatted'')"
    by (simp add: gnpn_fv)
qed

theorem getNormalizedPropertyName_precedence_witness:
  "str_includes (NAVIGATION_PROPERTY @ ''x'' @ FORMATTED_VALUE) NAVIGATION_PROPERTY \<and>
   str_includes (NAVIGATION_PROPERTY @ ''x'' @ FORMATTED_VALUE) FORMATTED_VALUE \<and>
   indexOf (NAVIGATION_PROPERTY @ ''x'' @ FORMATTED_VALUE) NAVIGATION_PROPERTY = 0 \<and>
   getNormalizedPropertyName (NAVIGATION_PROPERTY @ ''x'' @ FORMATTED_VALUE) =
     NAVIGATION_PROPERTY @ ''x'' @ FORMATTED_VALUE \<and>
   getNormalizedPropertyName (NAVIGATION_PROPERTY @ ''x'' @ FORMATTED_VALUE) \<noteq>
     ''_navigationproperty'' \<and>
   str_includes (''a'' @ FORMATTED_VALUE @ LOGICAL_NAME @ NAVIGATION_PROPERTY) NAVIGATION_PROPERTY \<and>
   getNormalizedPropertyName (''a'' @ FORMATTED_VALUE @ LOGICAL_NAME @ NAVIGATION_PROPERTY) =
     ''a'' @ FORMATTED_VALUE @ LOGICAL_NAME @ ''_navigationproperty'' \<and>
   \<not> str_includes (''b'' @ LOGICAL_NAME @ FORMATTED_VALUE) NAVIGATION_PROPERTY \<and>
   str_includes (''b'' @ LOGICAL_NAME @ FORMATTED_VALUE) LOGICAL_NAME \<and>
   getNormalizedPropertyName (''b'' @ LOGICAL_NAME @ FORMATTED_VALUE) = ''b_logical'' \<and>
   \<not> str_includes (''name'' @ FORMATTED_VALUE) NAVIGATION_PROPERTY \<and>
   \<not> str_includes (''name'' @ FORMATTED_VALUE) LOGICAL_NAME \<and>
   str_includes (''name'' @ FORMATTED_VALUE) FORMATTED_VALUE \<and>
   getNormalizedPropertyName (''name'' @ FORMATTED_VALUE) = ''name_formatted''"
proof -
  let ?p0 = "NAVIGATION_PROPERTY @ ''x'' @ FORMATTED_VALUE"
  let ?p1 = "''a'' @ FORMATTED_VALUE @ LOGICAL_NAME @ NAVIGATION_PROPERTY"
  let ?p2 = "''b'' @ LOGICAL_NAME @ FORMATTED_VALUE"
  let ?p3 = "''name'' @ FORMATTED_VALUE"
  have a0: "str_includes ?p0 NAVIGATION_PROPERTY" "str_includes ?p0 FORMATTED_VALUE"
    by code_simp+
  have i0: "indexOf ?p0 NAVIGATION_PROPERTY = 0"
    by code_simp
  have n0: "?p0 \<noteq> ''_navigationproperty''"
    by code_simp
  have a1: "str_includes ?p1 NAVIGATION_PROPERTY"
    by code_simp
  have i1: "indexOf ?p1 NAVIGATION_PROPERTY = 84"
    by code_simp
  have a2: "\<not> str_includes ?p2 NAVIGATION_PROPERTY" "str_includes ?p2 LOGICAL_NAME"
    by code_simp+
  have i2: "indexOf ?p2 LOGICAL_NAME = 1"
    by code_simp
  have a3: "\<not> str_includes ?p3 NAVIGATION_PROPERTY" "\<not> str_includes ?p3 LOGICAL_NAME"
    "str_includes ?p3 FORMATTED_VALUE"
    by code_simp+
  have i3: "indexOf ?p3 FORMATTED_VALUE = 4"
    by code_simp
  have t1: "take (nat 84) ?p1 @ ''_navigationproperty'' =
      ''a'' @ FORMATTED_VALUE @ LOGICAL_NAME @ ''_navigationproperty''"
    by code_simp
  have t2: "take (nat 1) ?p2 @ ''_logical'' = ''b_logical''"
    by code_simp
  have t3: "take (nat 4) ?p3 @ ''_formatted'' = ''name_formatted''"
    by code_simp
  from getNormalizedPropertyName_precedence[of ?p0] a0(1)
  have "getNormalizedPropertyName ?p0 =
      (if indexOf ?p0 NAVIGATION_PROPERTY = 0 then ?p0
       else take (nat (indexOf ?p0 NAVIGATION_PROPERTY)) ?p0 @ ''_navigationproperty'')"
    by blast
  then have r0: "getNormalizedPropertyName ?p0 = ?p0"
    unfolding i0 by simp
  have d0: "getNormalizedPropertyName ?p0 \<noteq> ''_navigationproperty''"
    unfolding r0 by (rule n0)
  from getNormalizedPropertyName_precedence[of ?p1] a1
  have "getNormalizedPropertyName ?p1 =
      (if indexOf ?p1 NAVIGATION_PROPERTY = 0 then ?p1
       else take (nat (indexOf ?p1 NAVIGATION_PROPERTY)) ?p1 @ ''_navigationproperty'')"
    by blast
  then have r1: "getNormalizedPropertyName ?p1 =
      ''a'' @ FORMATTED_VALUE @ LOGICAL_NAME @ ''_navigationproperty''"
    unfolding i1 t1 by simp
  from getNormalizedPropertyName_precedence[of ?p2] a2
  have "getNormalizedPropertyName ?p2 =
      (if indexOf ?p2 LOGICAL_NAME = 0 then ?p2
       else take (nat (indexOf ?p2 LOGICAL_NAME)) ?p2 @ ''_logical'')"
    by blast
  then have r2: "getNormalizedPropertyName ?p2 = ''b_logical''"
    unfolding i2 t2 by simp
  from getNormalizedPropertyName_precedence[of ?p3] a3
  have "getNormalizedPropertyName ?p3 =
      (if indexOf ?p3 FORMATTED_VALUE = 0 then ?p3
       else take (nat (indexOf ?p3 FORMATTED_VALUE)) ?p3 @ ''_formatted'')"
    by blast
  then have r3: "getNormalizedPropertyName ?p3 = ''name_formatted''"
    unfolding i3 t3 by simp
  show ?thesis
    by (intro conjI) (fact a0 i0 r0 d0 a1 a2 a3 r1 r2 r3)+
qed

section \<open>Renaming of annotated properties\<close>

text \<open>
  C3, as stated, fails on the code. Property names are keys of one plain object, so a
  later name that normalizes to an existing key overwrites its value; a name with two
  annotations is cut at the one of highest precedence only; and a name so produced can
  itself be an annotated name of the input. The three evaluations below show an entity
  whose \<open>a_formatted\<close> ends up bound to the value of another key, an entity whose
  formatted-value name yields no \<open>_formatted\<close> key, and an entity whose annotated key
  is still a key of the result.
\<close>

theorem parsePrefixedEntity_counterexample:
  "parsePrefixedEntity
     (JObj [(''a'' @ FORMATTED_VALUE, JStr ''x''), (''a_formatted'', JStr ''y'')]) =
     Inr (JObj [(''a_formatted'', JStr ''y'')]) \<and>
   parsePrefixedEntity (JObj [(''a'' @ FORMATTED_VALUE @ LOGICAL_NAME, JStr ''x'')]) =
     Inr (JObj [(''a'' @ FORMATTED_VALUE @ ''_logical'', JStr ''x'')]) \<and>
   parsePrefixedEntity
     (JObj [(''a'' @ FORMATTED_VALUE @ ''_logical'', JStr ''x''),
            (''a'' @ FORMATTED_VALUE @ LOGICAL_NAME, JStr ''y'')]) =
     Inr (JObj [(''a_formatted'', JStr ''x''), (''a'' @ FORMATTED_VALUE @ ''_logical'', JStr ''y'')])"
  by code_simp

text \<open>
  C3, amended. Take an entity mapping (distinct property names) in which no two names
  normalize to the same name and no name contains two different annotations. Then for
  every property name with the formatted-value annotation after a non-empty base, the
  normalized mapping binds \<open><base>_formatted\<close> to the original value and no longer has
  the annotated key; likewise for the lookup-logical-name annotation and \<open>_logical\<close>,
  and for the navigation-property annotation and \<open>_navigationproperty\<close>; and every
  name without annotation, other than \<open>__proto__\<close>, passes through with its value.
\<close>

theorem parsePrefixedEntity_renames:
  assumes dist: "distinct (map fst kvs)"
      and inj: "inj_on getNormalizedPropertyName (fst ` set kvs)"
      and one: "\<forall>k'\<in>fst ` set kvs. length (annotations_of k') \<le> 1"
      and mem: "(k, v) \<in> set kvs"
  shows "\<exists>obj. parsePrefixedEntity (JObj kvs) = Inr (JObj obj) \<and>
     (str_includes k FORMATTED_VALUE \<and> 0 < indexOf k FORMATTED_VALUE \<longrightarrow>
        map_of obj (take (nat (indexOf k FORMATTED_VALUE)) k @ ''_formatted'') = Some v \<and>
        map_of obj k = None) \<and>
     (str_includes k LOGICAL_NAME \<and> 0 < indexOf k LOGICAL_NAME \<longrightarrow>
        map_of obj (take (nat (indexOf k LOGICAL_NAME)) k @ ''_logical'') = Some v \<and>
        map_of obj k = None) \<and>
     (str_includes k NAVIGATION_PROPERTY \<and> 0 < indexOf k NAVIGATION_PROPERTY \<longrightarrow>
        map_of obj (take (nat (indexOf k NAVIGATION_PROPERTY)) k @ ''_navigationproperty'') = Some v \<and>
        map_of obj k = None) \<and>
     (annotations_of k = [] \<and> k \<noteq> ''__proto__'' \<longrightarrow> map_of obj k = Some v)"
proof -
  let ?obj = "normalize_into [] kvs"
  from mem have kin: "k \<in> fst ` set kvs" by force
  with one have onek: "length (annotations_of k) \<le> 1" by blast
  have renamed: "map_of ?obj (take (nat (indexOf k A)) k @ suffix_for A) = Some v \<and> map_of ?obj k = None"
    if A: "A \<in> {FORMATTED_VALUE, LOGICAL_NAME, NAVIGATION_PROPERTY}"
      and inc: "str_includes k A" and pos: "0 < indexOf k A" for A
  proof
    note r = renamed_differs[OF onek inc A pos]
    from normalize_into_bound[OF dist inj mem r(3)] r(1)
    show "map_of ?obj (take (nat (indexOf k A)) k @ suffix_for A) = Some v" by simp
    have "k \<notin> getNormalizedPropertyName ` fst ` set kvs"
    proof
      assume "k \<in> getNormalizedPropertyName ` fst ` set kvs"
      then obtain k' where k': "k' \<in> fst ` set kvs" "getNormalizedPropertyName k' = k" by auto
      from inc have "sublist A k" by (simp add: str_includes_sublist)
      with k' have "sublist A (getNormalizedPropertyName k')" by simp
      with one k'(1) A have "getNormalizedPropertyName k' = k'"
        using renamed_keeps_no_annotation by blast
      with k'(2) have "k' = k" by simp
      with k'(2) r(2) show False by simp
    qed
    then show "map_of ?obj k = None" by (simp add: normalize_into_other)
  qed
  have plain: "map_of ?obj k = Some v" if "annotations_of k = []" "k \<noteq> ''__proto__''"
    using normalize_into_bound[OF dist inj mem] annotations_of_Nil[OF that(1)] that(2) by simp
  have "parsePrefixedEntity (JObj kvs) = Inr (JObj ?obj)" by (rule parsePrefixedEntity_obj)
  moreover have "str_includes k FORMATTED_VALUE \<and> 0 < indexOf k FORMATTED_VALUE \<longrightarrow>
        map_of ?obj (take (nat (indexOf k FORMATTED_VALUE)) k @ ''_formatted'') = Some v \<and>
        map_of ?obj k = None"
    using renamed[of FORMATTED_VALUE] by (simp add: suffix_for_def)
  moreover have "str_includes k LOGICAL_NAME \<and> 0 < indexOf k LOGICAL_NAME \<longrightarrow>
        map_of ?obj (take (nat (indexOf k LOGICAL_NAME)) k @ ''_logical'') = Some v \<and>
        map_of ?obj k = None"
    using renamed[of LOGICAL_NAME] annotations_distinct by (simp add: suffix_for_def)
  moreover have "str_includes k NAVIGATION_PROPERTY \<and> 0 < indexOf k NAVIGATION_PROPERTY \<longrightarrow>
        map_of ?obj (take (nat (indexOf k NAVIGATION_PROPERTY)) k @ ''_navigationproperty'') = Some v \<and>
        map_of ?obj k = None"
    using renamed[of NAVIGATION_PROPERTY] annotations_distinct by (simp add: suffix_for_def)
  moreover have "annotations_of k = [] \<and> k \<noteq> ''__proto__'' \<longrightarrow> map_of ?obj k = Some v"
    using plain by simp
  ultimately show ?thesis by blast
qed

theorem parsePrefixedEntity_renames_witness:
  "\<exists>obj. parsePrefixedEntity
           (JObj [(''name'' @ FORMATTED_VALUE, JStr ''Alice''), (''id'', JNum 1)]) = Inr (JObj obj) \<and>
         map_of obj ''name_formatted'' = Some (JStr ''Alice'') \<and>
         map_of obj (''name'' @ FORMATTED_VALUE) = None \<and>
         map_of obj ''id'' = Some (JNum 1)"
proof -
  let ?k = "''name'' @ FORMATTED_VALUE"
  let ?kvs = "[(?k, JStr ''Alice''), (''id'', JNum 1)]"
  have n1: "getNormalizedPropertyName ?k = ''name_formatted''" by code_simp
  have n2: "getNormalizedPropertyName ''id'' = ''id''" by code_simp
  have a1: "annotations_of ?k = [FORMATTED_VALUE]" by code_simp
  have a2: "annotations_of ''id'' = []" by code_simp
  have i1: "indexOf ?k FORMATTED_VALUE = 4" by code_simp
  have inc: "str_includes ?k FORMATTED_VALUE" by code_simp
  have h1: "distinct (map fst ?kvs)" by (simp add: annotation_defs)
  have h2: "inj_on getNormalizedPropertyName (fst ` set ?kvs)"
    using n1 n2 by simp
  have h3: "\<forall>k'\<in>fst ` set ?kvs. length (annotations_of k') \<le> 1"
    using a1 a2 by simp
  have m1: "(?k, JStr ''Alice'') \<in> set ?kvs" by simp
  have m2: "(''id'', JNum 1) \<in> set ?kvs" by simp
  from parsePrefixedEntity_renames[OF h1 h2 h3 m1] inc i1
  obtain obj where o1: "parsePrefixedEntity (JObj ?kvs) = Inr (JObj obj)"
    "map_of obj ''name_formatted'' = Some (JStr ''Alice'')" "map_of obj ?k = None"
    by auto
  from parsePrefixedEntity_renames[OF h1 h2 h3 m2] a2
  obtain obj' where o2: "parsePrefixedEntity (JObj ?kvs) = Inr (JObj obj')"
    "map_of obj' ''id'' = Some (JNum 1)"
    by auto
  from o1(1) o2(1) have "obj' = obj" by simp
  with o1 o2 show ?thesis by blast
qed

section \<open>The shape of the batch request body\<close>

text \<open>
  C9, as stated, fails on the code: the body does not start with the opening boundary
  line. The template literal puts a line break before \<open>--batch\<close> and another one
  after \<open>--batch--\<close>.
\<close>

theorem makeBatchBody_counterexample:
  "makeBatchBody sample_config ''contacts'' ''x'' \<noteq>
     spec_batch_body (CRM_URL sample_config) ''contacts'' ''x'' \<and>
   hd (makeBatchBody sample_config ''contacts'' ''x'') = LF \<and>
   hd (spec_batch_body (CRM_URL sample_config) ''contacts'' ''x'') = CHR ''-'' \<and>
   last (makeBatchBody sample_config ''contacts'' ''x'') = LF \<and>
   last (spec_batch_body (CRM_URL sample_config) ''contacts'' ''x'') = CHR ''-''"
  by (simp add: makeBatchBody_def spec_batch_body_def batch_template_lines_def BATCH_NAME_def)

text \<open>
  C9, amended. For every query path and filter expression the constructed body is one
  line break, then the ten lines of the fixed template separated by line breaks (with
  the base URL, the query and the \<open>fetchXml\<close> parameter in the GET line and the header
  \<open>OData-MaxCersion: 4.0\<close> verbatim), then one line break, and nothing else.
\<close>

theorem makeBatchBody_exact:
  "makeBatchBody cfg query fetchXML = [LF] @ spec_batch_body (CRM_URL cfg) query fetchXML @ [LF]"
  by (simp add: makeBatchBody_def spec_batch_body_def batch_template_lines_def BATCH_NAME_def)

section \<open>The retry loop never retries\<close>

lemma truthy_initial_tries: "truthy_counter (plus_one (OBJECT_REFERENCE_RETRIES cfg))"
  by (simp add: OBJECT_REFERENCE_RETRIES_def split: option.splits)

lemma falsy_after_fault: "\<not> truthy_counter (minus_self E tries)"
  by (cases tries) (auto split: option.splits)

text \<open>
  C1 does not hold of the code. Whatever the configured retry count, when the first
  response carries the transient fault the statement \<open>tries -= tries\<close> empties the
  counter, the loop ends without a second request, and the call raises the error built
  from that first error content. With one fault followed by a success and the default
  count of one retry, the claim promises the success.
\<close>

theorem doFetchWithRetry_gives_up:
  assumes "doFetch cfg E method query data isBatch s = (Inr r, s')"
      and "js_get (content r) ''error'' = Inr err"
      and "truthy err"
      and "isObjectReferenceError err = Inr True"
  shows "doFetchWithRetry cfg E method query data isBatch s = (Inl (Error_val err), s')"
proof -
  let ?t = "plus_one (OBJECT_REFERENCE_RETRIES cfg)"
  have "retry_loop cfg E method query data isBatch ?t None s =
        retry_loop cfg E method query data isBatch (minus_self E ?t) (Some r) s'"
    using assms truthy_initial_tries[of cfg]
    by (subst retry_loop.simps) simp
  also have "\<dots> = (Inl (Error_val err), s')"
    using assms(2) falsy_after_fault[of E ?t]
    by (subst retry_loop.simps) simp
  finally show ?thesis by (simp add: doFetchWithRetry_def)
qed

lemma sample_fetch_fault:
  "doFetch sample_config (sample_env fault_then_success) ''GET'' ''contacts''
     JUndefined JUndefined initial_state =
     (Inr \<lparr>status = 200, content = fault_content\<rparr>, \<lparr>calls = 1, console = []\<rparr>)"
  by code_simp

theorem doFetchWithRetry_gives_up_witness:
  "doFetchWithRetry sample_config (sample_env fault_then_success) ''GET'' ''contacts''
     JUndefined JUndefined initial_state =
     (Inl (Error_val fault_error), \<lparr>calls = 1, console = []\<rparr>)"
proof -
  have 1: "js_get (content \<lparr>status = 200, content = fault_content\<rparr>) ''error'' = Inr fault_error"
    by (simp add: fault_content_def)
  have 2: "truthy fault_error" by (simp add: fault_error_def)
  have 3: "isObjectReferenceError fault_error = Inr True"
    by (simp add: fault_error_def isObjectReferenceError_def OBJECT_REFERENCE_ERROR_def)
  show ?thesis
    by (rule doFetchWithRetry_gives_up[OF sample_fetch_fault 1 2 3])
qed

section \<open>The reviver is never applied\<close>

text \<open>
  C2 does not hold of the code. \<open>dateReviver\<close> throws a TypeError on every value,
  since \<open>Math\<close> has no function \<open>isNaN\<close>; and parsing never calls it, since
  \<open>this.dateReviver\<close> is undefined in an instance method: a response text is parsed
  without a reviver, and a string that is a valid date stays a string.
\<close>

theorem dateReviver_never_revives:
  "dateReviver E key v = Inl TypeError \<and>
   this_dateReviver E = None \<and>
   JSON_parse_reviving E (Some t) (this_dateReviver E) =
     (case JSON_parse E t of None \<Rightarrow> Inl SyntaxError | Some json \<Rightarrow> Inr json)"
  by (simp add: dateReviver_def Math_functions_def this_dateReviver_def instance_members_def
      JSON_parse_reviving_def split: option.splits)

section \<open>Outcomes of the verbs\<close>

text \<open>
  C5 does not hold of the code. \<open>doDelete\<close> does not await the request, reads
  \<open>content\<close> of the pending promise and throws a TypeError on every input: it never
  returns the content and never returns \<open>false\<close>.
\<close>

theorem doDelete_throws: "fst (doDelete cfg E query s) = Inl TypeError"
  by (simp add: doDelete_def Let_def)

text \<open>
  C6 does not hold of the code. A GET whose response has status 404 and a content
  without \<open>error\<close> does not return \<open>false\<close>: building the log message reads
  \<open>message\<close> of the undefined \<open>error\<close>, which throws a TypeError, and nothing is
  logged.
\<close>

theorem doGet_not_found_throws:
  assumes "doFetchWithRetry cfg E ''GET'' query JUndefined JUndefined s = (Inr r, s')"
      and "js_get (content r) ''error'' = Inr JUndefined"
      and "status r = 404"
  shows "doGet cfg E query s = (Inl TypeError, s')"
  using assms by (simp add: doGet_def log_failed_def)

lemma sample_fetch_not_found:
  "doFetchWithRetry sample_config (sample_env not_found) ''GET'' ''contacts''
     JUndefined JUndefined initial_state =
     (Inr \<lparr>status = 404, content = not_found_content\<rparr>, \<lparr>calls = 1, console = []\<rparr>)"
  by code_simp

theorem doGet_not_found_throws_witness:
  "doGet sample_config (sample_env not_found) ''contacts'' initial_state =
     (Inl TypeError, \<lparr>calls = 1, console = []\<rparr>)"
proof -
  have 1: "js_get (content \<lparr>status = 404, content = not_found_content\<rparr>) ''error'' = Inr JUndefined"
    by (simp add: not_found_content_def)
  have 2: "status \<lparr>status = 404, content = not_found_content\<rparr> = 404" by simp
  show ?thesis by (rule doGet_not_found_throws[OF sample_fetch_not_found 1 2])
qed

text \<open>
  C7 does not hold of the code. A parsed response object without the key
  \<open>@odata.context\<close> is not returned as it is: \<open>includes\<close> is called on \<open>undefined\<close>,
  which throws a TypeError.
\<close>

theorem processGetResponse_without_context:
  "map_of kvs ''@odata.context'' = None \<Longrightarrow> processGetResponse (JObj kvs) = Inl TypeError"
  by (simp add: processGetResponse_def)

theorem processGetResponse_without_context_witness:
  "processGetResponse (JObj [(''name'', JStr ''Alice'')]) = Inl TypeError"
  by (rule processGetResponse_without_context) simp

section \<open>Decoding a batch response\<close>

text \<open>
  C8. Let a batch response body be an instance of the fixed structural template: a
  boundary marker, header-like lines, an HTTP status line, header-like lines, a
  \<open>{...}\<close> blob, whitespace and the closing boundary marker. Then \<open>extractBatchData\<close>
  returns exactly the blob of that instance. The instance may be preceded by text
  without an opening brace and followed by text without a closing brace (such as the
  line break that ends the response); for a body that is only the instance both
  conditions hold trivially.
\<close>

theorem extractBatchData_exact:
  assumes "batch_template pre j post body"
      and "CHR ''{'' \<notin> set pre" and "CHR ''}'' \<notin> set post"
  shows "extractBatchData body = Some j"
proof -
  from assms(1) obtain b h1 t h2 ws e where h:
    "body = pre @ b @ h1 @ t @ h2 @ j @ ws @ e @ post"
    "boundary_open b" "header_lines h1" "status_line t" "header_lines h2"
    "json_blob j" "ws \<noteq> []" "list_all is_space ws" "boundary_close e"
    unfolding batch_template_def by blast
  let ?X = "b @ h1 @ t @ h2"
  let ?r = "j @ ws @ e @ post"
  have X: "CHR ''{'' \<notin> set ?X"
    using boundary_open_no_brace[OF h(2)] header_lines_no_brace[OF h(3)]
      status_line_no_brace[OF h(4)] header_lines_no_brace[OF h(5)] by simp
  have here: "rmatch batchResponseRegExp (?X @ ?r) \<noteq> []"
  proof -
    have "(b @ h1 @ t @ h2 @ j @ ws @ e, Some j) \<in> sem batchResponseRegExp"
      unfolding sem_regexp using h(2-9) by blast
    then have "(Some j, post) \<in> set (rmatch batchResponseRegExp ((b @ h1 @ t @ h2 @ j @ ws @ e) @ post))"
      unfolding rmatch_sem by blast
    then have "rmatch batchResponseRegExp ((b @ h1 @ t @ h2 @ j @ ws @ e) @ post) \<noteq> []"
      by auto
    then show ?thesis by simp
  qed
  have "js_match batchResponseRegExp (p @ ?X @ ?r) = Some (Some j)" if "CHR ''{'' \<notin> set p" for p
    using that
  proof (induction p)
    case Nil
    from here obtain m ms where m: "rmatch batchResponseRegExp (?X @ ?r) = m # ms"
      by (cases "rmatch batchResponseRegExp (?X @ ?r)") auto
    from regexp_at[OF X h(6,7,8,9) assms(3)] m have "fst m = Some j" by simp
    with js_match_first[OF m] show ?case by simp
  next
    case (Cons c p)
    then have nb: "CHR ''{'' \<notin> set ((c # p) @ ?X)" using X by simp
    show ?case
    proof (cases "rmatch batchResponseRegExp ((c # p) @ ?X @ ?r)")
      case Nil
      then have "js_match batchResponseRegExp ((c # p) @ ?X @ ?r) =
                 js_match batchResponseRegExp (p @ ?X @ ?r)" by simp
      with Cons show ?thesis by simp
    next
      case (Cons m ms)
      from regexp_at[OF nb h(6,7,8,9) assms(3)] Cons have "fst m = Some j" by simp
      with js_match_first[OF Cons] show ?thesis by simp
    qed
  qed
  from this[OF assms(2)] show ?thesis
    unfolding h(1) extractBatchData_def by simp
qed

lemma sample_template:
  "batch_template [] success_text CRLF sample_batch_response"
proof -
  let ?u1 = "[LF] @ ''Content-Type: application/http'' @ CRLF @
             ''Content-Transfer-Encoding: binary'' @ CRLF"
  let ?u2 = "[LF] @ ''Content-Type: application/json; odata.metadata=minimal'' @ CRLF @
             ''OData-Version: 4.0'' @ CRLF"
  let ?b = "''--batchresponse_'' @ ''1f2a-9c'' @ [CR]"
  let ?h1 = "?u1 @ [CR, LF]"
  let ?t = "''HTTP/'' @ [CHR ''1''] @ ''.'' @ [CHR ''1''] @ [CHR '' ''] @ ''200'' @ [CHR '' ''] @ ''OK'' @ [CR]"
  let ?h2 = "?u2 @ [CR, LF]"
  let ?m = "butlast (tl success_text)"
  let ?e = "''--batchresponse_'' @ ''1f2a-9c'' @ ''--''"
  have body: "sample_batch_response = [] @ ?b @ ?h1 @ ?t @ ?h2 @ success_text @ CRLF @ ?e @ CRLF"
    by (simp add: sample_batch_response_def sample_batch_head_def CRLF_def)
  have b: "boundary_open ?b"
    unfolding boundary_open_def
    by (intro exI[of _ "''1f2a-9c''"] exI[of _ CR] conjI refl) code_simp+
  have h1: "header_lines ?h1"
    unfolding header_lines_def
    by (intro exI[of _ ?u1] exI[of _ CR] exI[of _ LF] conjI refl) code_simp+
  have h2: "header_lines ?h2"
    unfolding header_lines_def
    by (intro exI[of _ ?u2] exI[of _ CR] exI[of _ LF] conjI refl) code_simp+
  have t: "status_line ?t"
    unfolding status_line_def
    by (intro exI[of _ "CHR ''1''"] exI[of _ "CHR '' ''"] exI[of _ "''200''"]
        exI[of _ "''OK''"] exI[of _ CR] conjI refl) code_simp+
  have j: "json_blob success_text"
    unfolding json_blob_def
    by (intro exI[of _ ?m] conjI) code_simp+
  have ws: "CRLF \<noteq> []" "list_all is_space CRLF" by code_simp+
  have e: "boundary_close ?e"
    unfolding boundary_close_def
    by (intro exI[of _ "''1f2a-9c''"] conjI refl) code_simp+
  show ?thesis
    unfolding batch_template_def
    using body b h1 t h2 j ws e by blast
qed

theorem extractBatchData_exact_witness:
  "extractBatchData sample_batch_response = Some success_text"
proof -
  have 1: "CHR ''{'' \<notin> set []" by simp
  have 2: "CHR ''}'' \<notin> set CRLF" by (simp add: CRLF_def)
  show ?thesis by (rule extractBatchData_exact[OF sample_template 1 2])
qed

text \<open>The matcher, run on the same response, agrees.\<close>

lemma check_by_evaluation: "extractBatchData sample_batch_response = Some success_text"
  by code_simp

text \<open>
  C4 does not hold of the code. When the body of a batch response does not match the
  template, \<open>extractBatchData\<close> returns nothing and \<open>doFetch\<close> stores that in the
  variable \<open>text\<close>; parsing fails, nothing is thrown, and the message of the error
  content is \<open>undefined\<close>, not the raw response text.
\<close>

theorem doFetch_batch_unmatched:
  assumes "\<not> (\<exists>pre j post. batch_template pre j post body)"
      and "acquireToken E (calls s) = Some token"
      and "\<forall>req. fetch E (calls s) req = Responds st body"
      and "truthy isBatch"
  shows "doFetch cfg E verb query data isBatch s =
           (Inr \<lparr>status = st,
                 content = JObj [(''error'', JObj [(''message'', JUndefined)])]\<rparr>,
            s\<lparr>calls := calls s + 1\<rparr>)"
proof -
  from assms(1) have n: "extractBatchData body = None" by (simp add: extractBatchData_None)
  from assms(4) have nu: "isBatch \<noteq> JUndefined" by auto
  show ?thesis
    using assms(2,3,4) n nu
    by (simp add: doFetch_def Let_def getHeaders_def JSON_parse_reviving_def)
qed

lemma truncated_unmatched: "extractBatchData truncated_batch_response = None"
  by code_simp

theorem doFetch_batch_unmatched_witness:
  "doFetch sample_config (sample_env truncated_batch) ''POST'' ''$batch'' (JStr ''x'') (JBool True)
     initial_state =
     (Inr \<lparr>status = 200, content = JObj [(''error'', JObj [(''message'', JUndefined)])]\<rparr>,
      \<lparr>calls = 1, console = []\<rparr>)"
proof -
  have 1: "\<not> (\<exists>pre j post. batch_template pre j post truncated_batch_response)"
    using truncated_unmatched by (simp add: extractBatchData_None)
  have 2: "acquireToken (sample_env truncated_batch) (calls initial_state) = Some ''token''"
    by (simp add: sample_env_def)
  have 3: "\<forall>req. fetch (sample_env truncated_batch) (calls initial_state) req =
             Responds 200 truncated_batch_response"
    by (simp add: sample_env_def truncated_batch_def)
  have 4: "truthy (JBool True)" by simp
  from doFetch_batch_unmatched[OF 1 2 3 4, of sample_config "''POST''" "''$batch''" "JStr ''x''"]
  show ?thesis by (simp add: initial_state_def)
qed

end
